theory Spec2Isabelle
  imports Main "HOL-Library.AList"
begin

section \<open>Configuration values (internal/config/config.go)\<close>

text \<open>
  A \<^verbatim>\<open>config.Duration\<close> is a \<^verbatim>\<open>time.Duration\<close>, a signed count of nanoseconds;
  the service only compares durations and hands them to tickers and to the HTTP client.
  Go strings are \<open>string\<close>, a slice of strings is a list (a nil slice and an empty
  slice are both \<open>[]\<close>; the code only reads lengths and elements).
\<close>

type_synonym Duration = int

record Endpoint =
  Name :: string
  URL :: string
  Interval :: Duration
  Timeout :: Duration
  Description :: string
  Tags :: "string list"
  Enabled :: bool

record MonitorConfig =
  Endpoints :: "Endpoint list"
  ConfigCheck :: Duration

record Config =
  Database_Path :: string
  Monitor :: MonitorConfig
  Logging_Path :: string
  Logging_Level :: string

text \<open>A Go \<^verbatim>\<open>error\<close> is its description (\<^verbatim>\<open>err.Error()\<close>); \<open>None\<close> is \<^verbatim>\<open>nil\<close>.\<close>

type_synonym error = string

section \<open>Health checks (internal/monitor/types.go)\<close>

text \<open>
  A \<^verbatim>\<open>time.Time\<close> is a clock reading in nanoseconds; the zero value of every Go
  field is \<open>0\<close>, \<open>[]\<close> or the empty string.
\<close>

type_synonym Time = int

record HealthCheck =
  hc_Name :: string
  hc_URL :: string
  Status :: string
  StatusCode :: int
  ResponseTime :: int
  Timestamp :: Time
  Error :: string
  hc_Tags :: "string list"

text \<open>The lines the service prints, one constructor for each format string of service.go.\<close>

datatype log_line =
    Starting_health_check string
  | Error_checking_endpoint string error
  | Health_check_successful string string int
  | Health_check_degraded string string int int
  | Stopping_monitoring string
  | Error_saving_check string error
  | Reloading_configuration
  | Error_reloading_configuration error
  | Updating_configuration string
  | Adding_new_endpoint string
  | Removing_endpoint string

text \<open>
  What one probe meets outside the program: the clock at \<^verbatim>\<open>time.Now()\<close>, the outcome
  of \<^verbatim>\<open>client.Get\<close> (an error, or a response with its status code) and the clock when
  \<^verbatim>\<open>time.Since(start)\<close> is evaluated.
\<close>

record probe =
  clock_start :: Time
  get_result :: "error + int"
  clock_response :: Time

text \<open>\<^verbatim>\<open>Duration.Milliseconds\<close>: integer division by \<open>10\<^sup>6\<close>, truncating towards zero.\<close>

definition Milliseconds :: "Duration \<Rightarrow> int" where
  "Milliseconds d = (if d < 0 then - ((- d) div 1000000) else d div 1000000)"

definition time_Since :: "Time \<Rightarrow> Time \<Rightarrow> Duration" where
  "time_Since start now = now - start"

text \<open>
  \<^verbatim>\<open>performHealthCheck\<close> (service.go 89-124). It only reads the endpoint and writes
  to the logger, so it is a function of the endpoint and the probe's environment that
  returns the check and the lines it printed.
\<close>

definition performHealthCheck :: "probe \<Rightarrow> Endpoint \<Rightarrow> HealthCheck \<times> log_line list" where
  "performHealthCheck pr endpoint =
    (let l0 = [Starting_health_check (URL endpoint)];
         start = clock_start pr;
         check = \<lparr> hc_Name = Name endpoint, hc_URL = URL endpoint, Status = [],
                   StatusCode = 0, ResponseTime = 0, Timestamp = start, Error = [],
                   hc_Tags = Tags endpoint \<rparr>
     in case get_result pr of
          Inl err \<Rightarrow>
            (check \<lparr> Status := ''ERROR'', Error := err \<rparr>,
             l0 @ [Error_checking_endpoint (URL endpoint) err])
        | Inr code \<Rightarrow>
            (let duration = Milliseconds (time_Since start (clock_response pr));
                 check1 = check \<lparr> StatusCode := code, ResponseTime := duration \<rparr>
             in if code = 200
                then (check1 \<lparr> Status := ''UP'' \<rparr>,
                      l0 @ [Health_check_successful (URL endpoint) ''UP'' duration])
                else (check1 \<lparr> Status := ''DEGRADED'' \<rparr>,
                      l0 @ [Health_check_degraded (URL endpoint) ''DEGRADED'' code duration])))"

section \<open>Cancellation scopes (package context)\<close>

text \<open>
  A \<^verbatim>\<open>context.Context\<close> is the chain of cancellable scopes from itself up to
  \<^verbatim>\<open>context.Background()\<close>; \<^verbatim>\<open>context.WithCancel(parent)\<close> puts a new scope, with a
  number of its own, under its parent, and the \<^verbatim>\<open>CancelFunc\<close> it returns is that
  number. A context is done as soon as one scope of its chain has been cancelled.
\<close>

datatype ctx = Background | WithCancel nat ctx

fun ctx_Done :: "nat set \<Rightarrow> ctx \<Rightarrow> bool" where
  "ctx_Done X Background = False"
| "ctx_Done X (WithCancel i parent) = (i \<in> X \<or> ctx_Done X parent)"

fun scopes :: "ctx \<Rightarrow> nat set" where
  "scopes Background = {}"
| "scopes (WithCancel i parent) = insert i (scopes parent)"

text \<open>\<open>descends c r\<close>: the context \<open>c\<close> is \<open>r\<close> or was derived from it.\<close>

fun descends :: "ctx \<Rightarrow> ctx \<Rightarrow> bool" where
  "descends Background r = (r = Background)"
| "descends (WithCancel i parent) r = (WithCancel i parent = r \<or> descends parent r)"

section \<open>The service and the runtime it lives in (internal/monitor/types.go)\<close>

record EndpointMonitor =
  endpoint :: Endpoint
  cancel :: nat
  lastCheck :: Time

text \<open>
  The goroutines of the program: a polling loop with its context and the address of
  its monitor, the configuration watcher with its context, and the goroutine of
  \<^verbatim>\<open>Shutdown\<close> that waits on the wait group. A goroutine has been created by a
  \<^verbatim>\<open>go\<close> statement, is running its loop, or has returned.
\<close>

datatype routine = Go_monitorEndpoint ctx nat | Go_watchConfig ctx | Go_Wait

datatype phase = Created | Running | Exited

type_synonym goroutine = "routine \<times> phase"

text \<open>The calls on the mutex, the cancel functions and \<^verbatim>\<open>go\<close>, in the order they happen.\<close>

datatype event = Lock | Unlock | Cancel nat | Go routine

text \<open>
  The fields of \<^verbatim>\<open>Service\<close>, and below them the part of the Go runtime that the
  service acts on. The map \<^verbatim>\<open>endpoints\<close> is an association list from URLs to
  addresses of monitors (address \<open>0\<close> is \<^verbatim>\<open>nil\<close>); \<open>heap\<close> holds the monitors.
  \<open>storage\<close> lists the calls of \<^verbatim>\<open>SaveCheck\<close> with what each returned, \<open>logger\<close> the
  lines printed. \<open>cancelled\<close> holds the scopes whose cancel function has been called.
  \<open>panicked\<close> is set when a goroutine panics, which ends the process.
\<close>

record Service =
  storage :: "(HealthCheck \<times> error option) list"
  logger :: "log_line list"
  config :: MonitorConfig
  endpoints :: "(string \<times> nat) list"
  shutdownWg :: int
  heap :: "nat \<Rightarrow> EndpointMonitor"
  next_ptr :: nat
  cancelled :: "nat set"
  next_scope :: nat
  goroutines :: "goroutine list"
  panicked :: bool
  done_closed :: bool
  history :: "event list"

definition nil_monitor :: EndpointMonitor where
  "nil_monitor = \<lparr> endpoint = \<lparr> Name = [], URL = [], Interval = 0, Timeout = 0,
       Description = [], Tags = [], Enabled = False \<rparr>, cancel = 0, lastCheck = 0 \<rparr>"

definition NewService :: "MonitorConfig \<Rightarrow> Service" where
  "NewService cfg = \<lparr> storage = [], logger = [], config = cfg, endpoints = [],
     shutdownWg = 0, heap = (\<lambda>p. nil_monitor), next_ptr = 1, cancelled = {},
     next_scope = 0, goroutines = [], panicked = False, done_closed = False,
     history = [] \<rparr>"

subsection \<open>Library calls\<close>

definition logger_Printf :: "log_line \<Rightarrow> Service \<Rightarrow> Service" where
  "logger_Printf l s = s \<lparr> logger := logger s @ [l] \<rparr>"

definition mu_Lock :: "Service \<Rightarrow> Service" where
  "mu_Lock s = s \<lparr> history := history s @ [Lock] \<rparr>"

definition mu_Unlock :: "Service \<Rightarrow> Service" where
  "mu_Unlock s = s \<lparr> history := history s @ [Unlock] \<rparr>"

definition call_cancel :: "nat \<Rightarrow> Service \<Rightarrow> Service" where
  "call_cancel i s = s \<lparr> cancelled := insert i (cancelled s), history := history s @ [Cancel i] \<rparr>"

definition wg_Add :: "int \<Rightarrow> Service \<Rightarrow> Service" where
  "wg_Add n s = s \<lparr> shutdownWg := shutdownWg s + n \<rparr>"

definition wg_Done :: "Service \<Rightarrow> Service" where
  "wg_Done s = s \<lparr> shutdownWg := shutdownWg s - 1 \<rparr>"

definition go :: "routine \<Rightarrow> Service \<Rightarrow> Service" where
  "go r s = s \<lparr> goroutines := goroutines s @ [(r, Created)], history := history s @ [Go r] \<rparr>"

definition context_WithCancel :: "ctx \<Rightarrow> Service \<Rightarrow> (ctx \<times> nat) \<times> Service" where
  "context_WithCancel parent s =
     ((WithCancel (next_scope s) parent, next_scope s), s \<lparr> next_scope := Suc (next_scope s) \<rparr>)"

text \<open>\<^verbatim>\<open>&EndpointMonitor{...}\<close>: a new address, holding the given monitor.\<close>

definition new_monitor :: "EndpointMonitor \<Rightarrow> Service \<Rightarrow> nat \<times> Service" where
  "new_monitor m s = (next_ptr s, s \<lparr> heap := (heap s)(next_ptr s := m), next_ptr := Suc (next_ptr s) \<rparr>)"

text \<open>\<^verbatim>\<open>v, ok := m[k]\<close>; a missing key gives the zero value, a nil pointer.\<close>

definition map_index :: "(string \<times> nat) list \<Rightarrow> string \<Rightarrow> nat \<times> bool" where
  "map_index m k = (case map_of m k of Some p \<Rightarrow> (p, True) | None \<Rightarrow> (0, False))"

definition map_assign :: "string \<Rightarrow> nat \<Rightarrow> (string \<times> nat) list \<Rightarrow> (string \<times> nat) list" where
  "map_assign k p m = AList.update k p m"

section \<open>The service's operations (internal/monitor/service.go)\<close>

text \<open>
  Each operation takes the state and returns the new state with the error it returns
  (\<open>None\<close> for \<^verbatim>\<open>nil\<close>): a Go function that returns an error has still changed the
  service.
\<close>

definition startEndpoint :: "ctx \<Rightarrow> Endpoint \<Rightarrow> Service \<Rightarrow> Service \<times> error option" where
  "startEndpoint c e s =
    (let ((endpointCtx, cancelFn), s1) = context_WithCancel c s;
         (monitor, s2) = new_monitor \<lparr> endpoint = e, cancel = cancelFn, lastCheck = 0 \<rparr> s1;
         s3 = s2 \<lparr> endpoints := map_assign (URL e) monitor (endpoints s2) \<rparr>;
         s4 = wg_Add 1 s3;
         s5 = go (Go_monitorEndpoint endpointCtx monitor) s4
     in (s5, None))"

fun Start_endpoints :: "ctx \<Rightarrow> Endpoint list \<Rightarrow> Service \<Rightarrow> Service \<times> error option" where
  "Start_endpoints c [] s = (s, None)"
| "Start_endpoints c (e # rest) s =
    (if \<not> Enabled e then Start_endpoints c rest s
     else case startEndpoint c e s of
            (s', Some err) \<Rightarrow> (s', Some (''failed to start endpoint '' @ URL e @ '': '' @ err))
          | (s', None) \<Rightarrow> Start_endpoints c rest s')"

definition Start :: "ctx \<Rightarrow> Service \<Rightarrow> Service \<times> error option" where
  "Start c s =
    (case Start_endpoints c (Endpoints (config s)) (mu_Lock s) of
       (s1, Some err) \<Rightarrow> (mu_Unlock s1, Some err)
     | (s1, None) \<Rightarrow> (mu_Unlock (go (Go_watchConfig c) (wg_Add 1 s1)), None))"

fun sliceEqual_from :: "string list \<Rightarrow> string list \<Rightarrow> bool" where
  "sliceEqual_from (x # xs) (y # ys) = (if x \<noteq> y then False else sliceEqual_from xs ys)"
| "sliceEqual_from xs ys = True"

definition sliceEqual :: "string list \<Rightarrow> string list \<Rightarrow> bool" where
  "sliceEqual a b = (if length a \<noteq> length b then False else sliceEqual_from a b)"

definition endpointConfigEqual :: "Endpoint \<Rightarrow> Endpoint \<Rightarrow> bool" where
  "endpointConfigEqual a b \<longleftrightarrow>
     URL a = URL b \<and> Interval a = Interval b \<and> Timeout a = Timeout b \<and> Name a = Name b \<and>
     sliceEqual (Tags a) (Tags b)"

text \<open>
  The first loop of \<^verbatim>\<open>reloadConfig\<close> (lines 161-185), over the endpoints of the new
  configuration, with the map \<^verbatim>\<open>newEndpoints\<close> it fills.
\<close>

fun reload_endpoints ::
  "Endpoint list \<Rightarrow> (string \<times> nat) list \<Rightarrow> Service \<Rightarrow> ((string \<times> nat) list \<times> Service) \<times> error option"
where
  "reload_endpoints [] newEndpoints s = ((newEndpoints, s), None)"
| "reload_endpoints (e # rest) newEndpoints s =
    (if \<not> Enabled e then reload_endpoints rest newEndpoints s
     else
       let (monitor, exists) = map_index (endpoints s) (URL e) in
       if exists then
         (if \<not> endpointConfigEqual (endpoint (heap s monitor)) e then
            (case startEndpoint Background e
                    (call_cancel (cancel (heap s monitor))
                      (logger_Printf (Updating_configuration (URL e)) s)) of
               (s', Some err) \<Rightarrow>
                 ((newEndpoints, s'), Some (''failed to restart endpoint '' @ URL e @ '': '' @ err))
             | (s', None) \<Rightarrow>
                 reload_endpoints rest
                   (map_assign (URL e) (fst (map_index (endpoints s') (URL e))) newEndpoints) s')
          else
            reload_endpoints rest
              (map_assign (URL e) (fst (map_index (endpoints s) (URL e))) newEndpoints) s)
       else
         (case startEndpoint Background e (logger_Printf (Adding_new_endpoint (URL e)) s) of
            (s', Some err) \<Rightarrow>
              ((newEndpoints, s'), Some (''failed to start new endpoint '' @ URL e @ '': '' @ err))
          | (s', None) \<Rightarrow>
              reload_endpoints rest
                (map_assign (URL e) (fst (map_index (endpoints s') (URL e))) newEndpoints) s'))"

text \<open>
  The second loop (lines 188-193) ranges over \<^verbatim>\<open>s.endpoints\<close>. Go visits the entries
  of a map in an order it does not specify; the model visits them in the order of the
  list. The body only cancels scopes and prints, so the state it leaves differs between
  two orders in the order of the printed lines and of the recorded calls alone.
\<close>

fun remove_endpoints :: "(string \<times> nat) list \<Rightarrow> (string \<times> nat) list \<Rightarrow> Service \<Rightarrow> Service" where
  "remove_endpoints [] newEndpoints s = s"
| "remove_endpoints ((url, monitor) # rest) newEndpoints s =
    (if \<not> snd (map_index newEndpoints url)
     then remove_endpoints rest newEndpoints
            (call_cancel (cancel (heap s monitor)) (logger_Printf (Removing_endpoint url) s))
     else remove_endpoints rest newEndpoints s)"

text \<open>\<^verbatim>\<open>reloadConfig\<close>; \<open>r\<close> is what \<^verbatim>\<open>s.onReload()\<close> returned.\<close>

definition reloadConfig :: "error + Config \<Rightarrow> Service \<Rightarrow> Service \<times> error option" where
  "reloadConfig r s =
    (let s0 = logger_Printf Reloading_configuration s in
     case r of
       Inl err \<Rightarrow> (s0, Some (''failed to reload config: '' @ err))
     | Inr cfg \<Rightarrow>
         (case reload_endpoints (Endpoints (Monitor cfg)) [] (mu_Lock s0) of
            ((newEndpoints, s1), Some err) \<Rightarrow> (mu_Unlock s1, Some err)
          | ((newEndpoints, s1), None) \<Rightarrow>
              (let s2 = remove_endpoints (endpoints s1) newEndpoints s1
               in (mu_Unlock (s2 \<lparr> endpoints := newEndpoints, config := Monitor cfg \<rparr>), None))))"

text \<open>
  \<^verbatim>\<open>Shutdown\<close> up to its \<^verbatim>\<open>select\<close>: the loop over the map under the lock, and the
  goroutine that waits on the wait group and then closes \<^verbatim>\<open>done\<close>.
\<close>

fun cancel_endpoints :: "(string \<times> nat) list \<Rightarrow> Service \<Rightarrow> Service" where
  "cancel_endpoints [] s = s"
| "cancel_endpoints ((url, monitor) # rest) s =
     cancel_endpoints rest (call_cancel (cancel (heap s monitor)) s)"

definition Shutdown_begin :: "Service \<Rightarrow> Service" where
  "Shutdown_begin s =
     go Go_Wait ((mu_Unlock (cancel_endpoints (endpoints s) (mu_Lock s))) \<lparr> done_closed := False \<rparr>)"

text \<open>
  The \<^verbatim>\<open>select\<close> that ends \<^verbatim>\<open>Shutdown\<close>. \<open>ctx_Err\<close> is \<^verbatim>\<open>ctx.Err()\<close> of the
  caller's context (\<open>None\<close> while it is not done); when both channels are ready Go takes
  either case, \<open>prefer_done\<close> says which. The result is \<open>None\<close> while the call blocks
  and otherwise the error returned.
\<close>

definition Shutdown_select :: "error option \<Rightarrow> bool \<Rightarrow> Service \<Rightarrow> error option option" where
  "Shutdown_select ctx_Err prefer_done s =
     (case ctx_Err of
        None \<Rightarrow> (if done_closed s then Some None else None)
      | Some err \<Rightarrow> (if done_closed s \<and> prefer_done then Some None else Some (Some err)))"

section \<open>The goroutines, one step at a time\<close>

text \<open>
  \<^verbatim>\<open>monitorEndpoint\<close> (lines 63-86) and \<^verbatim>\<open>watchConfig\<close> (lines 127-143) start by
  creating a ticker: \<^verbatim>\<open>time.NewTicker\<close> panics when the interval is not positive.
  Then each runs its \<^verbatim>\<open>select\<close> loop; one step is one pass of the loop, for the case
  that has fired.
\<close>

definition set_phase :: "nat \<Rightarrow> phase \<Rightarrow> Service \<Rightarrow> Service" where
  "set_phase i ph s = s \<lparr> goroutines := (goroutines s)[i := (fst (goroutines s ! i), ph)] \<rparr>"

definition time_NewTicker :: "nat \<Rightarrow> Duration \<Rightarrow> Service \<Rightarrow> Service" where
  "time_NewTicker i d s = (if d \<le> 0 then s \<lparr> panicked := True \<rparr> else set_phase i Running s)"

definition storage_SaveCheck :: "HealthCheck \<Rightarrow> error option \<Rightarrow> Service \<Rightarrow> Service" where
  "storage_SaveCheck check result s = s \<lparr> storage := storage s @ [(check, result)] \<rparr>"

text \<open>
  The tick case of \<^verbatim>\<open>monitorEndpoint\<close>: \<open>pr\<close> is what the probe meets and \<open>saved\<close> is
  what \<^verbatim>\<open>SaveCheck\<close> returns.
\<close>

definition monitorEndpoint_tick :: "nat \<Rightarrow> probe \<Rightarrow> error option \<Rightarrow> Service \<Rightarrow> Service" where
  "monitorEndpoint_tick monitor pr saved s =
    (let (check, printed) = performHealthCheck pr (endpoint (heap s monitor));
         s1 = s \<lparr> logger := logger s @ printed \<rparr>;
         s2 = storage_SaveCheck check saved s1;
         s3 = (case saved of
                 Some err \<Rightarrow> logger_Printf (Error_saving_check (URL (endpoint (heap s2 monitor))) err) s2
               | None \<Rightarrow> s2)
     in s3 \<lparr> heap := (heap s3)(monitor := (heap s3 monitor) \<lparr> lastCheck := Timestamp check \<rparr>) \<rparr>)"

text \<open>The case \<^verbatim>\<open>ctx.Done()\<close>: print, return, and the deferred \<^verbatim>\<open>shutdownWg.Done()\<close>.\<close>

definition monitorEndpoint_return :: "nat \<Rightarrow> nat \<Rightarrow> Service \<Rightarrow> Service" where
  "monitorEndpoint_return i monitor s =
     set_phase i Exited
       (wg_Done (logger_Printf (Stopping_monitoring (URL (endpoint (heap s monitor)))) s))"

definition watchConfig_tick :: "error + Config \<Rightarrow> Service \<Rightarrow> Service" where
  "watchConfig_tick r s =
     (case reloadConfig r s of
        (s', Some err) \<Rightarrow> logger_Printf (Error_reloading_configuration err) s'
      | (s', None) \<Rightarrow> s')"

definition watchConfig_return :: "nat \<Rightarrow> Service \<Rightarrow> Service" where
  "watchConfig_return i s = set_phase i Exited (wg_Done s)"

text \<open>
  What a goroutine does next is chosen from outside: by the scheduler, the tickers, the
  network, the storage and the configuration file. An action names the goroutine by
  its position in \<open>goroutines\<close>. An action that the goroutine cannot take (it is not
  there, not in the right phase, or its \<^verbatim>\<open>select\<close> case has not fired) leaves the
  state as it is, and so does every action after a panic.
\<close>

datatype action =
    Init nat
  | Poll_tick nat probe "error option"
  | Poll_done nat
  | Watch_tick nat "error + Config"
  | Watch_done nat
  | Wait_return nat

definition goroutine_at :: "Service \<Rightarrow> nat \<Rightarrow> goroutine option" where
  "goroutine_at s i = (if i < length (goroutines s) then Some (goroutines s ! i) else None)"

definition step :: "action \<Rightarrow> Service \<Rightarrow> Service" where
  "step a s =
    (if panicked s then s
     else case a of
       Init i \<Rightarrow>
         (case goroutine_at s i of
            Some (Go_monitorEndpoint c monitor, Created) \<Rightarrow>
              time_NewTicker i (Interval (endpoint (heap s monitor))) s
          | Some (Go_watchConfig c, Created) \<Rightarrow> time_NewTicker i (ConfigCheck (config s)) s
          | Some (Go_Wait, Created) \<Rightarrow> set_phase i Running s
          | _ \<Rightarrow> s)
     | Poll_tick i pr saved \<Rightarrow>
         (case goroutine_at s i of
            Some (Go_monitorEndpoint c monitor, Running) \<Rightarrow> monitorEndpoint_tick monitor pr saved s
          | _ \<Rightarrow> s)
     | Poll_done i \<Rightarrow>
         (case goroutine_at s i of
            Some (Go_monitorEndpoint c monitor, Running) \<Rightarrow>
              (if ctx_Done (cancelled s) c then monitorEndpoint_return i monitor s else s)
          | _ \<Rightarrow> s)
     | Watch_tick i r \<Rightarrow>
         (case goroutine_at s i of
            Some (Go_watchConfig c, Running) \<Rightarrow> watchConfig_tick r s
          | _ \<Rightarrow> s)
     | Watch_done i \<Rightarrow>
         (case goroutine_at s i of
            Some (Go_watchConfig c, Running) \<Rightarrow>
              (if ctx_Done (cancelled s) c then watchConfig_return i s else s)
          | _ \<Rightarrow> s)
     | Wait_return i \<Rightarrow>
         (case goroutine_at s i of
            Some (Go_Wait, Running) \<Rightarrow>
              (if shutdownWg s = 0 then set_phase i Exited (s \<lparr> done_closed := True \<rparr>) else s)
          | _ \<Rightarrow> s))"

fun run :: "action list \<Rightarrow> Service \<Rightarrow> Service" where
  "run [] s = s"
| "run (a # as) s = run as (step a s)"

section \<open>The shutdown manager (internal/monitor/shutdown.go)\<close>

text \<open>
  \<^verbatim>\<open>ShutdownManager\<close>: the counter of its \<^verbatim>\<open>sync.WaitGroup\<close>, the outstanding workers,
  and its timeout. \<^verbatim>\<open>WaitGroup.Add\<close> panics when it would make the counter negative;
  \<open>None\<close> is that panic.
\<close>

record ShutdownManager =
  wg :: int
  timeout :: Duration

definition NewShutdownManager :: ShutdownManager where
  "NewShutdownManager = \<lparr> wg = 0, timeout = 5 * 1000000000 \<rparr>"

definition ShutdownManager_Add :: "int \<Rightarrow> ShutdownManager \<Rightarrow> ShutdownManager option" where
  "ShutdownManager_Add delta sm =
     (if wg sm + delta < 0 then None else Some (sm \<lparr> wg := wg sm + delta \<rparr>))"

definition ShutdownManager_Done :: "ShutdownManager \<Rightarrow> ShutdownManager option" where
  "ShutdownManager_Done sm = ShutdownManager_Add (- 1) sm"

text \<open>
  One call of \<^verbatim>\<open>Shutdown\<close> and what goes on around it: the manager, whether the channel
  \<^verbatim>\<open>done\<close> has been closed, the time that has passed since \<^verbatim>\<open>time.After\<close> was called,
  and whether the process has panicked.
\<close>

record drain =
  manager :: ShutdownManager
  done_chan :: bool
  elapsed :: Duration
  crashed :: bool

text \<open>\<^verbatim>\<open>Shutdown\<close> up to its \<^verbatim>\<open>select\<close>: a new channel, the goroutine that will wait on
  the wait group, and the timer.\<close>

definition ShutdownManager_Shutdown_begin :: "ShutdownManager \<Rightarrow> drain" where
  "ShutdownManager_Shutdown_begin sm =
     \<lparr> manager = sm, done_chan = False, elapsed = 0, crashed = False \<rparr>"

text \<open>
  What happens while \<^verbatim>\<open>Shutdown\<close> waits, in the order it happens: a worker calls
  \<^verbatim>\<open>Done\<close>; the waiting goroutine gets to run, and if \<^verbatim>\<open>wg.Wait()\<close> lets it through,
  the counter being zero, it closes \<^verbatim>\<open>done\<close>; time passes.
\<close>

datatype drain_event = Worker_Done | Waiter_runs | Time_passes nat

definition drain_step :: "drain_event \<Rightarrow> drain \<Rightarrow> drain" where
  "drain_step ev d =
    (if crashed d then d
     else case ev of
       Worker_Done \<Rightarrow>
         (case ShutdownManager_Done (manager d) of
            None \<Rightarrow> d \<lparr> crashed := True \<rparr>
          | Some sm \<Rightarrow> d \<lparr> manager := sm \<rparr>)
     | Waiter_runs \<Rightarrow> (if wg (manager d) = 0 then d \<lparr> done_chan := True \<rparr> else d)
     | Time_passes n \<Rightarrow> d \<lparr> elapsed := elapsed d + int n \<rparr>)"

fun drain_run :: "drain_event list \<Rightarrow> drain \<Rightarrow> drain" where
  "drain_run [] d = d"
| "drain_run (ev # evs) d = drain_run evs (drain_step ev d)"

text \<open>The channel of \<^verbatim>\<open>time.After(sm.timeout)\<close> has its value once the timeout has passed.\<close>

definition timer_fired :: "drain \<Rightarrow> bool" where
  "timer_fired d \<longleftrightarrow> timeout (manager d) \<le> elapsed d"

text \<open>
  The \<^verbatim>\<open>select\<close> of \<^verbatim>\<open>Shutdown\<close>, looked at once: \<open>None\<close> when no case is ready, and
  when both are, Go takes either; \<open>prefer_done\<close> says which.
\<close>

definition ShutdownManager_select :: "bool \<Rightarrow> drain \<Rightarrow> bool option" where
  "ShutdownManager_select prefer_done d =
     (if crashed d then None
      else if done_chan d \<and> timer_fired d then Some prefer_done
      else if done_chan d then Some True
      else if timer_fired d then Some False
      else None)"

text \<open>
  \<^verbatim>\<open>Shutdown\<close> from its \<^verbatim>\<open>select\<close> on: it returns with the case that is ready when
  it looks, and otherwise blocks until an event makes a case ready. \<open>None\<close>: it is
  still blocked when the events end.
\<close>

fun ShutdownManager_Shutdown :: "bool \<Rightarrow> drain_event list \<Rightarrow> drain \<Rightarrow> bool option" where
  "ShutdownManager_Shutdown prefer_done [] d = ShutdownManager_select prefer_done d"
| "ShutdownManager_Shutdown prefer_done (ev # evs) d =
     (case ShutdownManager_select prefer_done d of
        Some r \<Rightarrow> Some r
      | None \<Rightarrow> ShutdownManager_Shutdown prefer_done evs (drain_step ev d))"

section \<open>Example values\<close>

text \<open>
  A small configuration in the shape of the README's: endpoint \<open>A\<close> polled every 60
  seconds with a timeout of 10 seconds, and variants of it that the statements below are
  tried on.
\<close>

definition ex_A :: Endpoint where
  "ex_A = \<lparr> Name = ''A'', URL = ''https://a.example'', Interval = 60000000000,
     Timeout = 10000000000, Description = ''first'', Tags = [''production''], Enabled = True \<rparr>"

definition ex_B :: Endpoint where
  "ex_B = \<lparr> Name = ''B'', URL = ''https://b.example'', Interval = 30000000000,
     Timeout = 5000000000, Description = ''second'', Tags = [], Enabled = True \<rparr>"

definition ex_config :: "Endpoint list \<Rightarrow> Config" where
  "ex_config es = \<lparr> Database_Path = ''monitord.db'',
     Monitor = \<lparr> Endpoints = es, ConfigCheck = 180000000000 \<rparr>,
     Logging_Path = ''monitord.log'', Logging_Level = ''info'' \<rparr>"

text \<open>Endpoint \<open>A\<close> with its interval halved.\<close>

definition ex_A_faster :: Endpoint where
  "ex_A_faster = ex_A \<lparr> Interval := 30000000000 \<rparr>"

text \<open>Endpoint \<open>A\<close> with another description and nothing else changed.\<close>

definition ex_A_described :: Endpoint where
  "ex_A_described = ex_A \<lparr> Description := ''first, renamed'' \<rparr>"

text \<open>A second endpoint with the URL of \<open>A\<close> and another name.\<close>

definition ex_A_twin :: Endpoint where
  "ex_A_twin = ex_A \<lparr> Name := ''A2'' \<rparr>"

text \<open>
  The program's start (cmd/monitord/main.go): the service is built from the loaded
  configuration, the root context is derived from the background context, and
  \<^verbatim>\<open>Start\<close> is called with it.
\<close>

definition ex_root :: ctx where
  "ex_root = WithCancel 0 Background"

definition ex_fresh :: "Endpoint list \<Rightarrow> Service" where
  "ex_fresh es = snd (context_WithCancel Background (NewService (Monitor (ex_config es))))"

definition ex_started :: "Endpoint list \<Rightarrow> Service" where
  "ex_started es =
     (let ((root, cancelFn), s) = context_WithCancel Background (NewService (Monitor (ex_config es)))
      in fst (Start root s))"

definition ex_running :: "Endpoint list \<Rightarrow> Service" where
  "ex_running es = run [Init 0, Init 1, Init 2] (ex_started es)"

text \<open>A manager with one outstanding worker, and a call of \<^verbatim>\<open>Shutdown\<close> on it.\<close>

definition ex_drain :: drain where
  "ex_drain = ShutdownManager_Shutdown_begin (NewShutdownManager \<lparr> wg := 1 \<rparr>)"

section \<open>Notions used in the statements\<close>

text \<open>The scope that the cancel function of a map entry's monitor cancels.\<close>

definition scope_of :: "Service \<Rightarrow> string \<times> nat \<Rightarrow> nat" where
  "scope_of s = (\<lambda>(url, monitor). cancel (heap s monitor))"

text \<open>The entries that the second loop of \<^verbatim>\<open>reloadConfig\<close> cancels: those whose URL is
  not a key of \<^verbatim>\<open>newEndpoints\<close>.\<close>

definition removed :: "(string \<times> nat) list \<Rightarrow> (string \<times> nat) list \<Rightarrow> (string \<times> nat) list" where
  "removed es newEndpoints = filter (\<lambda>x. \<not> snd (map_index newEndpoints (fst x))) es"

text \<open>The context a goroutine listens on.\<close>

fun routine_ctx :: "routine \<Rightarrow> ctx" where
  "routine_ctx (Go_monitorEndpoint c monitor) = c"
| "routine_ctx (Go_watchConfig c) = c"
| "routine_ctx Go_Wait = Background"

text \<open>
  One pass of the first loop of \<^verbatim>\<open>reloadConfig\<close>: what it does to the map
  \<^verbatim>\<open>newEndpoints\<close> and to the service for one endpoint of the new configuration.
\<close>

definition reload_step :: "Endpoint \<Rightarrow> (string \<times> nat) list \<times> Service \<Rightarrow> (string \<times> nat) list \<times> Service" where
  "reload_step e ns = fst (reload_endpoints [e] (fst ns) (snd ns))"

text \<open>
  The addresses and scopes in use have been handed out: every monitor of the map lies
  below the next free address, its scope and every cancelled scope below the next free
  scope number.
\<close>

definition allocated :: "Service \<Rightarrow> bool" where
  "allocated s \<longleftrightarrow>
     (\<forall>u p. map_of (endpoints s) u = Some p \<longrightarrow> p < next_ptr s \<and> cancel (heap s p) < next_scope s) \<and>
     (\<forall>i \<in> cancelled s. i < next_scope s)"

text \<open>The URLs of the enabled endpoints of a configuration, in its order.\<close>

definition enabled_urls :: "Endpoint list \<Rightarrow> string list" where
  "enabled_urls es = map URL (filter Enabled es)"

text \<open>
  A map entry matches an endpoint when it is stored under the endpoint's URL and the
  snapshot of its monitor is equal to the endpoint for \<^verbatim>\<open>endpointConfigEqual\<close>. The
  map is in step with a configuration when its entries are, one for one and in the
  order of the configuration, matches of the enabled endpoints.
\<close>

definition matches :: "Service \<Rightarrow> string \<times> nat \<Rightarrow> Endpoint \<Rightarrow> bool" where
  "matches s x e \<longleftrightarrow> fst x = URL e \<and> endpointConfigEqual (endpoint (heap s (snd x))) e"

definition in_step :: "Service \<Rightarrow> Endpoint list \<Rightarrow> bool" where
  "in_step s es \<longleftrightarrow>
     distinct (map fst (endpoints s)) \<and> list_all2 (matches s) (endpoints s) (filter Enabled es)"

section \<open>The notions of the invariant of the running service\<close>

text \<open>The address of the monitor a polling loop holds; the other goroutines hold none.\<close>

fun routine_ptrs :: "routine \<Rightarrow> nat list" where
  "routine_ptrs (Go_monitorEndpoint c p) = [p]"
| "routine_ptrs (Go_watchConfig c) = []"
| "routine_ptrs Go_Wait = []"

text \<open>The monitors of all polling loops, in the order the loops were started.\<close>

definition loop_ptrs :: "Service \<Rightarrow> nat list" where
  "loop_ptrs s = concat (map (\<lambda>g. routine_ptrs (fst g)) (goroutines s))"

text \<open>
  A polling loop listens on the scope that its monitor's cancel function cancels, put
  directly under the background context or under the root; the watcher listens on the
  root itself.
\<close>

fun rooted :: "ctx \<Rightarrow> Service \<Rightarrow> routine \<Rightarrow> bool" where
  "rooted root s (Go_monitorEndpoint c p) =
     (c = WithCancel (cancel (heap s p)) Background \<or> c = WithCancel (cancel (heap s p)) root)"
| "rooted root s (Go_watchConfig c) = (c = root)"
| "rooted root s Go_Wait = True"

text \<open>
  The map is a map (no key twice), no monitor is registered under two keys, and every
  registered monitor has been allocated.
\<close>

definition addressed :: "Service \<Rightarrow> bool" where
  "addressed s \<longleftrightarrow>
     0 < next_ptr s \<and> distinct (map fst (endpoints s)) \<and> distinct (map snd (endpoints s)) \<and>
     (\<forall>x \<in> set (endpoints s). 0 < snd x \<and> snd x < next_ptr s)"

text \<open>
  Every allocated monitor has a scope of its own, handed out by \<^verbatim>\<open>context.WithCancel\<close>
  and not a scope of the root context; only scopes that were handed out have been
  cancelled, and no scope of the root context has.
\<close>

definition scoped :: "ctx \<Rightarrow> Service \<Rightarrow> bool" where
  "scoped root s \<longleftrightarrow>
     (\<forall>p q. 0 < p \<and> p < next_ptr s \<and> 0 < q \<and> q < next_ptr s \<and>
            cancel (heap s p) = cancel (heap s q) \<longrightarrow> p = q) \<and>
     (\<forall>p. 0 < p \<and> p < next_ptr s \<longrightarrow>
            cancel (heap s p) < next_scope s \<and> cancel (heap s p) \<notin> scopes root) \<and>
     (\<forall>i \<in> cancelled s. i < next_scope s) \<and>
     (\<forall>i \<in> scopes root. i < next_scope s \<and> i \<notin> cancelled s)"

text \<open>
  Every allocated monitor has exactly one polling loop, which listens on the monitor's
  scope, and a polling loop or watcher has returned only if its context was done.
\<close>

definition looped :: "ctx \<Rightarrow> Service \<Rightarrow> bool" where
  "looped root s \<longleftrightarrow>
     loop_ptrs s = [1..<next_ptr s] \<and>
     (\<forall>g \<in> set (goroutines s). rooted root s (fst g)) \<and>
     (\<forall>g \<in> set (goroutines s). snd g = Exited \<longrightarrow>
        fst g = Go_Wait \<or> ctx_Done (cancelled s) (routine_ctx (fst g)))"

text \<open>The scope of every registered monitor is uncancelled, but for the keys in \<open>U\<close>.\<close>

definition entries_live :: "string set \<Rightarrow> Service \<Rightarrow> bool" where
  "entries_live U s \<longleftrightarrow>
     (\<forall>x \<in> set (endpoints s). fst x \<notin> U \<longrightarrow> cancel (heap s (snd x)) \<notin> cancelled s)"

text \<open>
  The keys of the map are exactly the URLs of the enabled endpoints of the stored
  configuration.
\<close>

definition map_reflects_config :: "Service \<Rightarrow> bool" where
  "map_reflects_config s \<longleftrightarrow> fst ` set (endpoints s) = set (enabled_urls (Endpoints (config s)))"

text \<open>
  A goroutine is live while the process runs, it has not returned and its context is
  not done. The polling loops of a URL are the goroutines that poll it: the polling
  loops whose monitor has an endpoint with this URL.
\<close>

definition live :: "Service \<Rightarrow> goroutine \<Rightarrow> bool" where
  "live s g \<longleftrightarrow>
     \<not> panicked s \<and> snd g \<noteq> Exited \<and> \<not> ctx_Done (cancelled s) (routine_ctx (fst g))"

fun polls :: "Service \<Rightarrow> string \<Rightarrow> routine \<Rightarrow> bool" where
  "polls s url (Go_monitorEndpoint c p) = (URL (endpoint (heap s p)) = url)"
| "polls s url (Go_watchConfig c) = False"
| "polls s url Go_Wait = False"

definition loops_of :: "Service \<Rightarrow> string \<Rightarrow> goroutine list" where
  "loops_of s url = filter (\<lambda>g. polls s url (fst g)) (goroutines s)"

text \<open>
  Every map entry has exactly one live polling loop bound to it: of all the loops that
  poll the entry's URL one is live, and it is the loop that holds the entry's monitor
  and listens on the scope that the monitor's cancel function cancels.
\<close>

definition one_live_loop_each :: "Service \<Rightarrow> bool" where
  "one_live_loop_each s \<longleftrightarrow>
     (\<forall>x \<in> set (endpoints s). \<exists>c ph.
         filter (live s) (loops_of s (fst x)) = [(Go_monitorEndpoint c (snd x), ph)] \<and>
         cancel (heap s (snd x)) \<in> scopes c)"




text \<open>
  The state in which \<^verbatim>\<open>Start\<close> is called on a new service: no monitor, no goroutine,
  and a root context whose scopes have been handed out and not cancelled.
\<close>

definition before_Start :: "ctx \<Rightarrow> Service \<Rightarrow> bool" where
  "before_Start root s \<longleftrightarrow>
     endpoints s = [] \<and> goroutines s = [] \<and> next_ptr s = 1 \<and>
     (\<forall>i \<in> cancelled s. i < next_scope s) \<and>
     (\<forall>i \<in> scopes root. i < next_scope s \<and> i \<notin> cancelled s)"

text \<open>
  The invariant of the running service, for a root context \<open>root\<close>. Between the two
  loops of a reconciliation the entries under the keys in \<open>U\<close> may have been
  cancelled; everywhere else \<open>U\<close> is empty and the map reflects the configuration.
\<close>

definition serving_but :: "string set \<Rightarrow> ctx \<Rightarrow> Service \<Rightarrow> bool" where
  "serving_but U root s \<longleftrightarrow> addressed s \<and> scoped root s \<and> looped root s \<and> entries_live U s"

definition serving :: "ctx \<Rightarrow> Service \<Rightarrow> bool" where
  "serving root s \<longleftrightarrow> serving_but {} root s \<and> map_reflects_config s"

section \<open>Classification of a probe\<close>

lemma Milliseconds_nonneg: "0 \<le> d \<Longrightarrow> Milliseconds d = d div 1000000"
  by (simp add: Milliseconds_def)

text \<open>
  C1. Every probe falls in exactly one of three cases, tried in this order.
  If the request did not complete, the check has status ERROR, its error message is the
  description of the cause (so it is non-empty whenever that description is), and the
  status code and the response time keep their zero values.
  If a response came with code 200, the status is UP, the code 200 is recorded and the
  response time is the number of milliseconds between the start of the request and the
  response. With any other code the status is DEGRADED, that code is recorded, and
  the response time is computed in the same way.
\<close>

theorem performHealthCheck_classifies:
  fixes pr :: probe and endpoint :: Endpoint
  defines "check \<equiv> fst (performHealthCheck pr endpoint)"
  shows "(\<forall>err. get_result pr = Inl err \<longrightarrow>
            Status check = ''ERROR'' \<and> Error check = err \<and> (err \<noteq> [] \<longrightarrow> Error check \<noteq> []) \<and>
            StatusCode check = 0 \<and> ResponseTime check = 0)
       \<and> (get_result pr = Inr 200 \<longrightarrow>
            Status check = ''UP'' \<and> StatusCode check = 200 \<and> Error check = [] \<and>
            ResponseTime check = Milliseconds (clock_response pr - clock_start pr))
       \<and> (\<forall>code. get_result pr = Inr code \<and> code \<noteq> 200 \<longrightarrow>
            Status check = ''DEGRADED'' \<and> StatusCode check = code \<and> Error check = [] \<and>
            ResponseTime check = Milliseconds (clock_response pr - clock_start pr))
       \<and> (\<exists>err. get_result pr = Inl err) \<noteq> (\<exists>code. get_result pr = Inr code)"
proof -
  have cases: "(\<exists>err. get_result pr = Inl err) \<noteq> (\<exists>code. get_result pr = Inr code)"
    by (cases "get_result pr") simp_all
  show ?thesis
    unfolding check_def using cases
    by (auto simp: performHealthCheck_def time_Since_def Let_def)
qed

theorem performHealthCheck_classifies_witness:
  "Status (fst (performHealthCheck
       \<lparr> clock_start = 1000000000, get_result = Inl ''dial tcp: connection refused'',
         clock_response = 1250000000 \<rparr> ex_A)) = ''ERROR''
   \<and> Error (fst (performHealthCheck
       \<lparr> clock_start = 1000000000, get_result = Inl ''dial tcp: connection refused'',
         clock_response = 1250000000 \<rparr> ex_A)) = ''dial tcp: connection refused''
   \<and> StatusCode (fst (performHealthCheck
       \<lparr> clock_start = 1000000000, get_result = Inl ''dial tcp: connection refused'',
         clock_response = 1250000000 \<rparr> ex_A)) = 0
   \<and> Status (fst (performHealthCheck
       \<lparr> clock_start = 1000000000, get_result = Inr 200, clock_response = 1250000000 \<rparr> ex_A)) = ''UP''
   \<and> ResponseTime (fst (performHealthCheck
       \<lparr> clock_start = 1000000000, get_result = Inr 200, clock_response = 1250000000 \<rparr> ex_A)) = 250
   \<and> Status (fst (performHealthCheck
       \<lparr> clock_start = 1000000000, get_result = Inr 503, clock_response = 1250000000 \<rparr> ex_A)) = ''DEGRADED''
   \<and> StatusCode (fst (performHealthCheck
       \<lparr> clock_start = 1000000000, get_result = Inr 503, clock_response = 1250000000 \<rparr> ex_A)) = 503"
  using
    performHealthCheck_classifies [of "\<lparr> clock_start = 1000000000,
      get_result = Inl ''dial tcp: connection refused'', clock_response = 1250000000 \<rparr>" ex_A]
    performHealthCheck_classifies [of "\<lparr> clock_start = 1000000000,
      get_result = Inr 200, clock_response = 1250000000 \<rparr>" ex_A]
    performHealthCheck_classifies [of "\<lparr> clock_start = 1000000000,
      get_result = Inr 503, clock_response = 1250000000 \<rparr>" ex_A]
  by (simp add: Milliseconds_def)

section \<open>What the library calls and \<^verbatim>\<open>startEndpoint\<close> change\<close>

lemma startEndpoint_fields [simp]:
  "snd (startEndpoint c e s) = None"
  "endpoints (fst (startEndpoint c e s)) = AList.update (URL e) (next_ptr s) (endpoints s)"
  "heap (fst (startEndpoint c e s)) =
     (heap s)(next_ptr s := \<lparr> endpoint = e, cancel = next_scope s, lastCheck = 0 \<rparr>)"
  "next_ptr (fst (startEndpoint c e s)) = Suc (next_ptr s)"
  "next_scope (fst (startEndpoint c e s)) = Suc (next_scope s)"
  "cancelled (fst (startEndpoint c e s)) = cancelled s"
  "goroutines (fst (startEndpoint c e s)) =
     goroutines s @ [(Go_monitorEndpoint (WithCancel (next_scope s) c) (next_ptr s), Created)]"
  "history (fst (startEndpoint c e s)) =
     history s @ [Go (Go_monitorEndpoint (WithCancel (next_scope s) c) (next_ptr s))]"
  "config (fst (startEndpoint c e s)) = config s"
  "logger (fst (startEndpoint c e s)) = logger s"
  "storage (fst (startEndpoint c e s)) = storage s"
  "shutdownWg (fst (startEndpoint c e s)) = shutdownWg s + 1"
  "panicked (fst (startEndpoint c e s)) = panicked s"
  "done_closed (fst (startEndpoint c e s)) = done_closed s"
  by (simp_all add: startEndpoint_def context_WithCancel_def new_monitor_def map_assign_def
      wg_Add_def go_def)

lemma case_startEndpoint [simp]:
  "(case startEndpoint c e s of (s', r) \<Rightarrow> (case r of None \<Rightarrow> f s' | Some err \<Rightarrow> g s' err)) =
     f (fst (startEndpoint c e s))"
  by (simp add: split_beta)

section \<open>No start of an endpoint fails\<close>

lemma Start_endpoints_nil: "snd (Start_endpoints c es s) = None"
  by (induction es arbitrary: s) simp_all

lemma reload_endpoints_nil: "snd (reload_endpoints es new s) = None"
  by (induction es arbitrary: new s) (simp_all add: split_beta Let_def)

text \<open>
  C10. \<^verbatim>\<open>startEndpoint\<close> returns nil on every input. Hence the error branch of
  \<^verbatim>\<open>Start\<close> and the two restart-failure branches of the reconciliation are never
  taken: \<^verbatim>\<open>Start\<close> returns nil for every configuration and every state, and
  \<^verbatim>\<open>reloadConfig\<close> returns nil whenever the fetch of the configuration succeeded.
\<close>

theorem startEndpoint_cannot_fail:
  "snd (startEndpoint c e s) = None \<and> snd (Start c s) = None \<and>
   snd (reloadConfig (Inr cfg) s) = None"
proof -
  have "snd (Start c s) = None"
    using Start_endpoints_nil[of c "Endpoints (config s)" "mu_Lock s"]
    by (cases "Start_endpoints c (Endpoints (config s)) (mu_Lock s)") (simp add: Start_def)
  moreover have "snd (reloadConfig (Inr cfg) s) = None"
    using reload_endpoints_nil[of "Endpoints (Monitor cfg)" "[]"
        "mu_Lock (logger_Printf Reloading_configuration s)"]
    by (cases "reload_endpoints (Endpoints (Monitor cfg)) []
          (mu_Lock (logger_Printf Reloading_configuration s))")
       (auto simp: reloadConfig_def Let_def)
  ultimately show ?thesis by simp
qed

theorem startEndpoint_cannot_fail_witness:
  "snd (startEndpoint ex_root ex_A (NewService (Monitor (ex_config [ex_A, ex_B])))) = None
   \<and> snd (Start ex_root (NewService (Monitor (ex_config [ex_A, ex_B])))) = None
   \<and> snd (reloadConfig (Inr (ex_config [ex_B])) (ex_started [ex_A, ex_B])) = None"
  using startEndpoint_cannot_fail [of ex_root ex_A "NewService (Monitor (ex_config [ex_A, ex_B]))"]
    startEndpoint_cannot_fail [of ex_root ex_A "NewService (Monitor (ex_config [ex_A, ex_B]))"
      "ex_config [ex_B]"]
    startEndpoint_cannot_fail [of ex_root ex_A "ex_started [ex_A, ex_B]" "ex_config [ex_B]"]
  by simp

lemmas ex_simps = ex_running_def ex_started_def ex_config_def ex_root_def ex_A_def ex_B_def
  NewService_def context_WithCancel_def Start_def startEndpoint_def new_monitor_def
  map_assign_def map_index_def mu_Lock_def mu_Unlock_def go_def wg_Add_def wg_Done_def
  logger_Printf_def call_cancel_def step_def goroutine_at_def set_phase_def time_NewTicker_def
  Let_def

lemma ex_running_goroutines:
  "goroutines (ex_running [ex_A, ex_B]) =
    [(Go_monitorEndpoint (WithCancel 1 ex_root) 1, Running),
     (Go_monitorEndpoint (WithCancel 2 ex_root) 2, Running),
     (Go_watchConfig ex_root, Running)]"
  "panicked (ex_running [ex_A, ex_B]) = False"
  "endpoints (ex_running [ex_A, ex_B]) = [(''https://a.example'', 1), (''https://b.example'', 2)]"
  by (simp_all add: ex_simps)

section \<open>A failed reload\<close>

text \<open>
  C7. When the fetch of the configuration returns an error, \<^verbatim>\<open>reloadConfig\<close> returns
  the wrapped error and has changed nothing but the log, and the pass of the watch loop
  that called it changes nothing but the log either: the stored configuration, the map
  of monitors, every monitor, every scope and every goroutine are as before, the error
  is printed, and the watcher is still running its loop, ready for the next tick.
\<close>

theorem reload_error_is_skipped:
  "reloadConfig (Inl err) s =
     (s \<lparr> logger := logger s @ [Reloading_configuration] \<rparr>,
      Some (''failed to reload config: '' @ err))
   \<and> (\<not> panicked s \<and> goroutine_at s i = Some (Go_watchConfig c, Running) \<longrightarrow>
        step (Watch_tick i (Inl err)) s =
          s \<lparr> logger := logger s @ [Reloading_configuration,
                 Error_reloading_configuration (''failed to reload config: '' @ err)] \<rparr>
        \<and> goroutine_at (step (Watch_tick i (Inl err)) s) i = Some (Go_watchConfig c, Running))"
  by (simp add: reloadConfig_def step_def watchConfig_tick_def logger_Printf_def goroutine_at_def)

theorem reload_error_is_skipped_witness:
  "step (Watch_tick 2 (Inl ''open config.json: no such file or directory'')) (ex_running [ex_A, ex_B]) =
     (ex_running [ex_A, ex_B]) \<lparr> logger := [Reloading_configuration,
        Error_reloading_configuration
          ''failed to reload config: open config.json: no such file or directory''] \<rparr>
   \<and> goroutine_at (step (Watch_tick 2 (Inl ''open config.json: no such file or directory''))
         (ex_running [ex_A, ex_B])) 2 = Some (Go_watchConfig ex_root, Running)"
proof -
  have h: "\<not> panicked (ex_running [ex_A, ex_B]) \<and>
      goroutine_at (ex_running [ex_A, ex_B]) 2 = Some (Go_watchConfig ex_root, Running)"
    by (simp add: ex_running_goroutines goroutine_at_def)
  have l: "logger (ex_running [ex_A, ex_B]) = []"
    by (simp add: ex_simps)
  from h reload_error_is_skipped [of "''open config.json: no such file or directory''"
        "ex_running [ex_A, ex_B]" 2 ex_root]
  have c: "step (Watch_tick 2 (Inl ''open config.json: no such file or directory'')) (ex_running [ex_A, ex_B]) =
     (ex_running [ex_A, ex_B]) \<lparr> logger := logger (ex_running [ex_A, ex_B]) @ [Reloading_configuration,
        Error_reloading_configuration
          (''failed to reload config: '' @ ''open config.json: no such file or directory'')] \<rparr>"
    "goroutine_at (step (Watch_tick 2 (Inl ''open config.json: no such file or directory''))
         (ex_running [ex_A, ex_B])) 2 = Some (Go_watchConfig ex_root, Running)"
    by blast+
  show ?thesis
    using c by (simp add: l)
qed

section \<open>One tick of a polling loop\<close>

lemma monitorEndpoint_tick_fields:
  "storage (monitorEndpoint_tick m pr saved s) =
     storage s @ [(fst (performHealthCheck pr (endpoint (heap s m))), saved)]"
  "heap (monitorEndpoint_tick m pr saved s) =
     (heap s)(m := (heap s m) \<lparr> lastCheck := Timestamp (fst (performHealthCheck pr (endpoint (heap s m)))) \<rparr>)"
  "logger (monitorEndpoint_tick m pr saved s) =
     logger s @ snd (performHealthCheck pr (endpoint (heap s m))) @
     (case saved of None \<Rightarrow> [] | Some err \<Rightarrow> [Error_saving_check (URL (endpoint (heap s m))) err])"
  "goroutines (monitorEndpoint_tick m pr saved s) = goroutines s"
  "endpoints (monitorEndpoint_tick m pr saved s) = endpoints s"
  "config (monitorEndpoint_tick m pr saved s) = config s"
  "cancelled (monitorEndpoint_tick m pr saved s) = cancelled s"
  "shutdownWg (monitorEndpoint_tick m pr saved s) = shutdownWg s"
  "panicked (monitorEndpoint_tick m pr saved s) = panicked s"
  "next_ptr (monitorEndpoint_tick m pr saved s) = next_ptr s"
  "next_scope (monitorEndpoint_tick m pr saved s) = next_scope s"
  "history (monitorEndpoint_tick m pr saved s) = history s"
  "done_closed (monitorEndpoint_tick m pr saved s) = done_closed s"
  by (simp_all add: monitorEndpoint_tick_def storage_SaveCheck_def logger_Printf_def split_beta
      Let_def split: option.splits)

lemma Timestamp_performHealthCheck:
  "Timestamp (fst (performHealthCheck pr e)) = clock_start pr"
  by (simp add: performHealthCheck_def Let_def split: sum.splits)

lemma step_Poll_tick_goroutines:
  "goroutines (step (Poll_tick j pr saved) s) = goroutines s \<and>
   panicked (step (Poll_tick j pr saved) s) = panicked s"
  by (simp add: step_def monitorEndpoint_tick_fields split: option.splits routine.splits phase.splits)

lemma run_ticks_goroutines:
  "(\<forall>a \<in> set acts. \<exists>j pr saved. a = Poll_tick j pr saved) \<Longrightarrow>
     goroutines (run acts s) = goroutines s"
proof (induction acts arbitrary: s)
  case Nil
  show ?case by simp
next
  case (Cons a acts)
  from Cons.prems obtain j pr saved where a: "a = Poll_tick j pr saved" by auto
  have "goroutines (run acts (step a s)) = goroutines (step a s)"
    using Cons.prems by (intro Cons.IH) simp
  then show ?case by (simp add: a step_Poll_tick_goroutines)
qed

text \<open>
  C8. On every tick of a running polling loop the check that the probe returns is handed
  to \<^verbatim>\<open>SaveCheck\<close> and the monitor's \<^verbatim>\<open>lastCheck\<close> becomes the timestamp of that
  probe, the time at which it started. This holds whatever \<^verbatim>\<open>SaveCheck\<close> returns: an
  error is printed and nothing else happens, the goroutine is still running its loop, no
  goroutine, scope or wait-group count has changed, and after any number of ticks, with
  any results of the storage, the loop is still running.
\<close>

theorem tick_is_saved_and_loop_goes_on:
  assumes "\<not> panicked s" and "goroutine_at s i = Some (Go_monitorEndpoint c monitor, Running)"
  shows "(let check = fst (performHealthCheck pr (endpoint (heap s monitor)));
              s' = step (Poll_tick i pr saved) s
          in storage s' = storage s @ [(check, saved)]
           \<and> lastCheck (heap s' monitor) = Timestamp check
           \<and> Timestamp check = clock_start pr
           \<and> (\<forall>err. saved = Some err \<longrightarrow>
                 last (logger s') = Error_saving_check (URL (endpoint (heap s monitor))) err)
           \<and> goroutine_at s' i = Some (Go_monitorEndpoint c monitor, Running)
           \<and> goroutines s' = goroutines s \<and> shutdownWg s' = shutdownWg s
           \<and> endpoints s' = endpoints s \<and> cancelled s' = cancelled s)
       \<and> (\<forall>acts. (\<forall>a \<in> set acts. \<exists>j pr saved. a = Poll_tick j pr saved) \<longrightarrow>
             goroutine_at (run acts s) i = Some (Go_monitorEndpoint c monitor, Running))"
proof -
  have st: "step (Poll_tick i pr saved) s = monitorEndpoint_tick monitor pr saved s"
    using assms by (simp add: step_def)
  have run: "\<And>acts. (\<forall>a \<in> set acts. \<exists>j pr saved. a = Poll_tick j pr saved) \<Longrightarrow>
      goroutine_at (run acts s) i = goroutine_at s i"
    by (simp add: goroutine_at_def run_ticks_goroutines)
  have one: "goroutine_at (monitorEndpoint_tick monitor pr saved s) i = goroutine_at s i"
    by (simp add: goroutine_at_def monitorEndpoint_tick_fields)
  show ?thesis
    using assms(2) run
    by (simp add: st one Let_def monitorEndpoint_tick_fields Timestamp_performHealthCheck)
qed

theorem tick_is_saved_and_loop_goes_on_witness:
  "storage (step (Poll_tick 0 \<lparr> clock_start = 1000000000, get_result = Inr 200,
       clock_response = 1250000000 \<rparr> (Some ''database is locked'')) (ex_running [ex_A, ex_B])) =
     [(fst (performHealthCheck \<lparr> clock_start = 1000000000, get_result = Inr 200,
         clock_response = 1250000000 \<rparr> ex_A), Some ''database is locked'')]
   \<and> lastCheck (heap (step (Poll_tick 0 \<lparr> clock_start = 1000000000, get_result = Inr 200,
       clock_response = 1250000000 \<rparr> (Some ''database is locked'')) (ex_running [ex_A, ex_B])) 1) =
     1000000000
   \<and> last (logger (step (Poll_tick 0 \<lparr> clock_start = 1000000000, get_result = Inr 200,
       clock_response = 1250000000 \<rparr> (Some ''database is locked'')) (ex_running [ex_A, ex_B]))) =
     Error_saving_check ''https://a.example'' ''database is locked''
   \<and> goroutine_at (step (Poll_tick 0 \<lparr> clock_start = 1000000000, get_result = Inr 200,
       clock_response = 1250000000 \<rparr> (Some ''database is locked'')) (ex_running [ex_A, ex_B])) 0 =
     Some (Go_monitorEndpoint (WithCancel 1 ex_root) 1, Running)"
proof -
  have h: "\<not> panicked (ex_running [ex_A, ex_B])"
    "goroutine_at (ex_running [ex_A, ex_B]) 0 = Some (Go_monitorEndpoint (WithCancel 1 ex_root) 1, Running)"
    by (simp_all add: ex_running_goroutines goroutine_at_def)
  have e: "endpoint (heap (ex_running [ex_A, ex_B]) 1) = ex_A" "storage (ex_running [ex_A, ex_B]) = []"
    by (simp_all add: ex_simps)
  show ?thesis
    using tick_is_saved_and_loop_goes_on [OF h, of "\<lparr> clock_start = 1000000000, get_result = Inr 200,
       clock_response = 1250000000 \<rparr>" "Some ''database is locked''"] e
    by (simp add: Let_def ex_A_def)
qed

section \<open>Frame lemmas\<close>

lemma call_cancel_fields [simp]:
  "cancelled (call_cancel i s) = insert i (cancelled s)"
  "history (call_cancel i s) = history s @ [Cancel i]"
  "heap (call_cancel i s) = heap s"
  "endpoints (call_cancel i s) = endpoints s"
  "goroutines (call_cancel i s) = goroutines s"
  "config (call_cancel i s) = config s"
  "logger (call_cancel i s) = logger s"
  "storage (call_cancel i s) = storage s"
  "shutdownWg (call_cancel i s) = shutdownWg s"
  "next_ptr (call_cancel i s) = next_ptr s"
  "next_scope (call_cancel i s) = next_scope s"
  "panicked (call_cancel i s) = panicked s"
  "done_closed (call_cancel i s) = done_closed s"
  by (simp_all add: call_cancel_def)

lemma logger_Printf_fields [simp]:
  "logger (logger_Printf l s) = logger s @ [l]"
  "cancelled (logger_Printf l s) = cancelled s"
  "history (logger_Printf l s) = history s"
  "heap (logger_Printf l s) = heap s"
  "endpoints (logger_Printf l s) = endpoints s"
  "goroutines (logger_Printf l s) = goroutines s"
  "config (logger_Printf l s) = config s"
  "storage (logger_Printf l s) = storage s"
  "shutdownWg (logger_Printf l s) = shutdownWg s"
  "next_ptr (logger_Printf l s) = next_ptr s"
  "next_scope (logger_Printf l s) = next_scope s"
  "panicked (logger_Printf l s) = panicked s"
  "done_closed (logger_Printf l s) = done_closed s"
  by (simp_all add: logger_Printf_def)

lemma mu_fields [simp]:
  "history (mu_Lock s) = history s @ [Lock]"
  "history (mu_Unlock s) = history s @ [Unlock]"
  "cancelled (mu_Lock s) = cancelled s" "cancelled (mu_Unlock s) = cancelled s"
  "heap (mu_Lock s) = heap s" "heap (mu_Unlock s) = heap s"
  "endpoints (mu_Lock s) = endpoints s" "endpoints (mu_Unlock s) = endpoints s"
  "goroutines (mu_Lock s) = goroutines s" "goroutines (mu_Unlock s) = goroutines s"
  "config (mu_Lock s) = config s" "config (mu_Unlock s) = config s"
  "logger (mu_Lock s) = logger s" "logger (mu_Unlock s) = logger s"
  "storage (mu_Lock s) = storage s" "storage (mu_Unlock s) = storage s"
  "shutdownWg (mu_Lock s) = shutdownWg s" "shutdownWg (mu_Unlock s) = shutdownWg s"
  "next_ptr (mu_Lock s) = next_ptr s" "next_ptr (mu_Unlock s) = next_ptr s"
  "next_scope (mu_Lock s) = next_scope s" "next_scope (mu_Unlock s) = next_scope s"
  "panicked (mu_Lock s) = panicked s" "panicked (mu_Unlock s) = panicked s"
  "done_closed (mu_Lock s) = done_closed s" "done_closed (mu_Unlock s) = done_closed s"
  by (simp_all add: mu_Lock_def mu_Unlock_def)

lemma ctx_Done_iff: "ctx_Done X c \<longleftrightarrow> X \<inter> scopes c \<noteq> {}"
  by (induction c) auto

lemma ctx_Done_Un: "ctx_Done (X \<union> Y) c \<longleftrightarrow> ctx_Done X c \<or> ctx_Done Y c"
  by (induction c) auto

lemma ctx_Done_mono: "X \<subseteq> Y \<Longrightarrow> ctx_Done X c \<Longrightarrow> ctx_Done Y c"
  by (induction c) auto

lemma scope_of_heap: "heap t = heap s \<Longrightarrow> scope_of t = scope_of s"
  by (simp add: scope_of_def fun_eq_iff)

lemma cancel_endpoints_eq:
  "cancel_endpoints es s =
     s \<lparr> cancelled := cancelled s \<union> scope_of s ` set es,
         history := history s @ map (\<lambda>x. Cancel (scope_of s x)) es \<rparr>"
proof (induction es arbitrary: s)
  case Nil
  show ?case by simp
next
  case (Cons x es)
  obtain url monitor where x: "x = (url, monitor)" by (cases x)
  have h: "scope_of (call_cancel (cancel (heap s monitor)) s) = scope_of s"
    by (rule scope_of_heap) simp
  show ?case
    by (simp add: x Cons.IH h) (simp add: call_cancel_def scope_of_def)
qed

lemma remove_endpoints_eq:
  "remove_endpoints es new s =
     s \<lparr> logger := logger s @ map (\<lambda>x. Removing_endpoint (fst x)) (removed es new),
         cancelled := cancelled s \<union> scope_of s ` set (removed es new),
         history := history s @ map (\<lambda>x. Cancel (scope_of s x)) (removed es new) \<rparr>"
proof (induction es arbitrary: s)
  case Nil
  show ?case by (simp add: removed_def)
next
  case (Cons x es)
  obtain url monitor where x: "x = (url, monitor)" by (cases x)
  have h: "scope_of (call_cancel (cancel (heap s monitor)) (logger_Printf (Removing_endpoint url) s))
      = scope_of s"
    by (rule scope_of_heap) simp
  show ?case
    by (simp add: x Cons.IH h removed_def) (simp add: call_cancel_def logger_Printf_def scope_of_def)
qed

lemma reload_endpoints_frame:
  "done_closed (snd (fst (reload_endpoints es new s))) = done_closed s"
  "panicked (snd (fst (reload_endpoints es new s))) = panicked s"
  "storage (snd (fst (reload_endpoints es new s))) = storage s"
  "config (snd (fst (reload_endpoints es new s))) = config s"
  by (induction es arbitrary: new s; simp add: split_beta Let_def; fail)+

lemma reloadConfig_frame:
  "done_closed (fst (reloadConfig r s)) = done_closed s"
  "panicked (fst (reloadConfig r s)) = panicked s"
  "storage (fst (reloadConfig r s)) = storage s"
  by (cases r; simp add: reloadConfig_def Let_def split_beta remove_endpoints_eq reload_endpoints_frame
        reload_endpoints_nil; fail)+

lemma set_phase_fields [simp]:
  "goroutines (set_phase i ph s) = (goroutines s)[i := (fst (goroutines s ! i), ph)]"
  "cancelled (set_phase i ph s) = cancelled s"
  "history (set_phase i ph s) = history s"
  "heap (set_phase i ph s) = heap s"
  "endpoints (set_phase i ph s) = endpoints s"
  "config (set_phase i ph s) = config s"
  "logger (set_phase i ph s) = logger s"
  "storage (set_phase i ph s) = storage s"
  "shutdownWg (set_phase i ph s) = shutdownWg s"
  "next_ptr (set_phase i ph s) = next_ptr s"
  "next_scope (set_phase i ph s) = next_scope s"
  "panicked (set_phase i ph s) = panicked s"
  "done_closed (set_phase i ph s) = done_closed s"
  by (simp_all add: set_phase_def)

lemma done_closed_step:
  "\<not> done_closed t \<Longrightarrow> done_closed (step a t) \<Longrightarrow> shutdownWg t = 0"
  by (cases a)
     (auto simp: step_def time_NewTicker_def monitorEndpoint_tick_fields monitorEndpoint_return_def
       watchConfig_tick_def watchConfig_return_def wg_Done_def reloadConfig_frame split_beta
       split: if_splits option.splits routine.splits phase.splits prod.splits)

section \<open>Shutdown\<close>

text \<open>
  C2, as amended. For every state, \<^verbatim>\<open>Shutdown\<close> takes the lock, calls the cancel
  function of every monitor registered in the map and of nothing else, releases the
  lock, starts the goroutine that waits on the wait group, and then blocks in its
  \<^verbatim>\<open>select\<close>. A context is done afterwards exactly when it was done before or one of
  the cancelled monitor scopes lies on its chain; no goroutine and no count is touched.
  The \<^verbatim>\<open>select\<close> returns nil only once \<^verbatim>\<open>done\<close> is closed, which happens only when
  the wait-group count is zero, returns the error of the caller's context when that
  context is done, and blocks otherwise. The scope of the configuration watcher is not
  among the scopes cancelled: the watcher runs on the context given to \<^verbatim>\<open>Start\<close>.
\<close>

theorem Shutdown_cancels_the_monitors_of_the_map:
  "history (Shutdown_begin s) =
     history s @ [Lock] @ map (\<lambda>x. Cancel (scope_of s x)) (endpoints s) @ [Unlock, Go Go_Wait]
   \<and> cancelled (Shutdown_begin s) = cancelled s \<union> scope_of s ` set (endpoints s)
   \<and> (\<forall>c. ctx_Done (cancelled (Shutdown_begin s)) c \<longleftrightarrow>
          ctx_Done (cancelled s) c \<or> (\<exists>x \<in> set (endpoints s). scope_of s x \<in> scopes c))
   \<and> goroutines (Shutdown_begin s) = goroutines s @ [(Go_Wait, Created)]
   \<and> shutdownWg (Shutdown_begin s) = shutdownWg s
   \<and> Shutdown_select None prefer_done (Shutdown_begin s) = None
   \<and> (\<forall>t err. Shutdown_select None prefer_done t = (if done_closed t then Some None else None)
          \<and> (Shutdown_select (Some err) prefer_done t = Some None \<longrightarrow> done_closed t)
          \<and> (Shutdown_select (Some err) prefer_done t \<noteq> Some None \<longrightarrow>
                Shutdown_select (Some err) prefer_done t = Some (Some err)))
   \<and> (\<forall>t a. \<not> done_closed t \<and> done_closed (step a t) \<longrightarrow> shutdownWg t = 0)"
proof -
  have sel: "\<forall>t err. Shutdown_select None prefer_done t = (if done_closed t then Some None else None)
          \<and> (Shutdown_select (Some err) prefer_done t = Some None \<longrightarrow> done_closed t)
          \<and> (Shutdown_select (Some err) prefer_done t \<noteq> Some None \<longrightarrow>
                Shutdown_select (Some err) prefer_done t = Some (Some err))"
    by (simp add: Shutdown_select_def)
  have closes: "\<forall>t a. \<not> done_closed t \<and> done_closed (step a t) \<longrightarrow> shutdownWg t = 0"
    using done_closed_step by blast
  have dn: "\<forall>c. ctx_Done (cancelled s \<union> scope_of s ` set (endpoints s)) c \<longleftrightarrow>
          ctx_Done (cancelled s) c \<or> (\<exists>x \<in> set (endpoints s). scope_of s x \<in> scopes c)"
    by (auto simp: ctx_Done_Un) (auto simp: ctx_Done_iff)
  have sb: "Shutdown_begin s = s \<lparr> cancelled := cancelled s \<union> scope_of s ` set (endpoints s),
      history := history s @ [Lock] @ map (\<lambda>x. Cancel (scope_of s x)) (endpoints s) @ [Unlock, Go Go_Wait],
      goroutines := goroutines s @ [(Go_Wait, Created)], done_closed := False \<rparr>"
    by (simp add: Shutdown_begin_def cancel_endpoints_eq scope_of_heap[of "mu_Lock s" s])
       (simp add: go_def mu_Lock_def mu_Unlock_def)
  show ?thesis
    using sel closes dn by (simp add: sb Shutdown_select_def)
qed

lemmas run_simps = monitorEndpoint_return_def watchConfig_return_def watchConfig_tick_def
  monitorEndpoint_tick_def storage_SaveCheck_def Shutdown_begin_def Shutdown_select_def

theorem Shutdown_cancels_the_monitors_of_the_map_witness:
  "history (Shutdown_begin (ex_running [ex_A, ex_B])) =
     history (ex_running [ex_A, ex_B]) @ [Lock, Cancel 1, Cancel 2, Unlock, Go Go_Wait]
   \<and> cancelled (Shutdown_begin (ex_running [ex_A, ex_B])) = {1, 2}
   \<and> ctx_Done (cancelled (Shutdown_begin (ex_running [ex_A, ex_B]))) (WithCancel 2 ex_root)
   \<and> Shutdown_select None True (Shutdown_begin (ex_running [ex_A, ex_B])) = None"
proof -
  let ?S = "ex_running [ex_A, ex_B]"
  note t = Shutdown_cancels_the_monitors_of_the_map [of ?S True]
  have e1: "map (\<lambda>x. Cancel (scope_of ?S x)) (endpoints ?S) = [Cancel 1, Cancel 2]"
    and e2: "cancelled ?S \<union> scope_of ?S ` set (endpoints ?S) = {1, 2}"
    by (simp_all add: ex_simps scope_of_def eval_nat_numeral)
  have "history (Shutdown_begin ?S) = history ?S @ [Lock, Cancel 1, Cancel 2, Unlock, Go Go_Wait]"
    using t [THEN conjunct1] by (simp add: e1)
  moreover have c: "cancelled (Shutdown_begin ?S) = {1, 2}"
    using t [THEN conjunct2, THEN conjunct1] by (simp only: e2)
  moreover have "ctx_Done (cancelled (Shutdown_begin ?S)) (WithCancel 2 ex_root)"
    by (simp add: c)
  moreover have "Shutdown_select None True (Shutdown_begin ?S) = None"
    using t by blast
  ultimately show ?thesis by blast
qed

text \<open>
  C2 as stated fails. In the service started on endpoints \<open>A\<close> and \<open>B\<close>, with all three
  goroutines running, \<^verbatim>\<open>Shutdown\<close> cancels scopes 1 and 2 only. The watcher's context,
  the root scope 0, is not done and no call cancels it; the watcher cannot take its
  \<^verbatim>\<open>ctx.Done()\<close> case. After both polling loops have returned the wait-group count is
  still 1, \<^verbatim>\<open>done\<close> stays open, and the \<^verbatim>\<open>select\<close> of \<^verbatim>\<open>Shutdown\<close> blocks until
  the caller's context ends.
\<close>

theorem Shutdown_leaves_the_watcher_counterexample:
  "goroutine_at (Shutdown_begin (ex_running [ex_A, ex_B])) 2 = Some (Go_watchConfig ex_root, Running)
   \<and> \<not> ctx_Done (cancelled (Shutdown_begin (ex_running [ex_A, ex_B]))) ex_root
   \<and> Cancel 0 \<notin> set (history (Shutdown_begin (ex_running [ex_A, ex_B])))
   \<and> step (Watch_done 2) (Shutdown_begin (ex_running [ex_A, ex_B])) =
       Shutdown_begin (ex_running [ex_A, ex_B])
   \<and> shutdownWg (run [Poll_done 0, Poll_done 1, Init 3, Watch_done 2, Wait_return 3]
        (Shutdown_begin (ex_running [ex_A, ex_B]))) = 1
   \<and> Shutdown_select None True (run [Poll_done 0, Poll_done 1, Init 3, Watch_done 2, Wait_return 3]
        (Shutdown_begin (ex_running [ex_A, ex_B]))) = None"
  by (simp add: ex_simps run_simps cancel_endpoints_eq scope_of_def)

section \<open>The bounded drain\<close>

lemma drain_step_mono:
  "done_chan d \<Longrightarrow> done_chan (drain_step ev d)"
  "timer_fired d \<Longrightarrow> timer_fired (drain_step ev d)"
  by (auto simp: drain_step_def timer_fired_def ShutdownManager_Done_def ShutdownManager_Add_def
      split: drain_event.splits option.splits)

lemma drain_run_mono:
  "done_chan d \<Longrightarrow> done_chan (drain_run evs d)"
  "timer_fired d \<Longrightarrow> timer_fired (drain_run evs d)"
  by (induction evs arbitrary: d) (simp_all add: drain_step_mono)

text \<open>One event makes at most one case of the \<^verbatim>\<open>select\<close> ready, and not in a dead process.\<close>

lemma drain_step_one:
  assumes "\<not> done_chan d" and "\<not> timer_fired d"
  shows "\<not> (done_chan (drain_step ev d) \<and> timer_fired (drain_step ev d))"
    and "done_chan (drain_step ev d) \<or> timer_fired (drain_step ev d) \<Longrightarrow> \<not> crashed (drain_step ev d)"
  using assms
  by (auto simp: drain_step_def timer_fired_def ShutdownManager_Done_def ShutdownManager_Add_def
      split: drain_event.splits option.splits if_splits)

lemma done_chan_step:
  "\<not> done_chan d \<Longrightarrow> done_chan (drain_step ev d) \<Longrightarrow> wg (manager d) = 0 \<and> ev = Waiter_runs"
  by (auto simp: drain_step_def ShutdownManager_Done_def ShutdownManager_Add_def
      split: drain_event.splits option.splits if_splits)

lemma manager_step:
  "ev \<noteq> Worker_Done \<Longrightarrow> manager (drain_step ev d) = manager d"
  by (auto simp: drain_step_def split: drain_event.splits)

lemma select_ready:
  "ShutdownManager_select p d = Some r \<Longrightarrow> ShutdownManager_Shutdown p evs d = Some r"
  by (cases evs) simp_all

lemma select_blocked:
  "\<not> done_chan d \<Longrightarrow> \<not> timer_fired d \<Longrightarrow> ShutdownManager_select p d = None"
  by (simp add: ShutdownManager_select_def)

lemma ex_moment_Cons:
  "(\<exists>n \<le> length (ev # evs). Q (drain_run (take n (ev # evs)) d)) \<longleftrightarrow>
     Q d \<or> (\<exists>n \<le> length evs. Q (drain_run (take n evs) (drain_step ev d)))"
proof
  assume "\<exists>n \<le> length (ev # evs). Q (drain_run (take n (ev # evs)) d)"
  then obtain n where n: "n \<le> length (ev # evs)" "Q (drain_run (take n (ev # evs)) d)" by blast
  show "Q d \<or> (\<exists>n \<le> length evs. Q (drain_run (take n evs) (drain_step ev d)))"
  proof (cases n)
    case 0
    then show ?thesis using n(2) by simp
  next
    case (Suc m)
    then have "m \<le> length evs" "Q (drain_run (take m evs) (drain_step ev d))"
      using n by simp_all
    then show ?thesis by blast
  qed
next
  assume "Q d \<or> (\<exists>n \<le> length evs. Q (drain_run (take n evs) (drain_step ev d)))"
  then show "\<exists>n \<le> length (ev # evs). Q (drain_run (take n (ev # evs)) d)"
  proof
    assume "Q d"
    then show ?thesis by (intro exI[of _ 0]) simp
  next
    assume "\<exists>n \<le> length evs. Q (drain_run (take n evs) (drain_step ev d))"
    then obtain m where "m \<le> length evs" "Q (drain_run (take m evs) (drain_step ev d))" by blast
    then show ?thesis by (intro exI[of _ "Suc m"]) simp
  qed
qed

lemma all_moments_Cons:
  "(\<forall>n \<le> length (ev # evs). Q (drain_run (take n (ev # evs)) d)) \<longleftrightarrow>
     Q d \<and> (\<forall>n \<le> length evs. Q (drain_run (take n evs) (drain_step ev d)))"
  using ex_moment_Cons[of ev evs "\<lambda>x. \<not> Q x" d] by blast

text \<open>
  A caller that finds no case ready is woken by the first event that makes one ready:
  it returns true exactly when there is a moment at which \<^verbatim>\<open>done\<close> is closed and the
  timer has not fired, false exactly when there is a moment at which the timer has fired
  and \<^verbatim>\<open>done\<close> is open, and stays blocked exactly when neither ever happens.
\<close>

lemma Shutdown_parked:
  assumes "\<not> done_chan d" and "\<not> timer_fired d"
  shows "(ShutdownManager_Shutdown p evs d = Some True \<longleftrightarrow>
            (\<exists>n \<le> length evs. done_chan (drain_run (take n evs) d) \<and>
                               \<not> timer_fired (drain_run (take n evs) d)))
       \<and> (ShutdownManager_Shutdown p evs d = Some False \<longleftrightarrow>
            (\<exists>n \<le> length evs. timer_fired (drain_run (take n evs) d) \<and>
                               \<not> done_chan (drain_run (take n evs) d)))
       \<and> (ShutdownManager_Shutdown p evs d = None \<longleftrightarrow>
            (\<forall>n \<le> length evs. \<not> done_chan (drain_run (take n evs) d) \<and>
                               \<not> timer_fired (drain_run (take n evs) d)))"
  using assms
proof (induction evs arbitrary: d)
  case Nil
  then show ?case by (simp add: select_blocked)
next
  case (Cons ev evs)
  let ?d = "drain_step ev d"
  have r: "ShutdownManager_Shutdown p (ev # evs) d = ShutdownManager_Shutdown p evs ?d"
    using Cons.prems by (simp add: select_blocked)
  note ex_closed = ex_moment_Cons[of ev evs "\<lambda>x. done_chan x \<and> \<not> timer_fired x" d]
  note ex_fired = ex_moment_Cons[of ev evs "\<lambda>x. timer_fired x \<and> \<not> done_chan x" d]
  note all_blocked = all_moments_Cons[of ev evs "\<lambda>x. \<not> done_chan x \<and> \<not> timer_fired x" d]
  consider (blocked) "\<not> done_chan ?d" "\<not> timer_fired ?d"
    | (closed) "done_chan ?d" "\<not> timer_fired ?d" "\<not> crashed ?d"
    | (fired) "timer_fired ?d" "\<not> done_chan ?d" "\<not> crashed ?d"
    using drain_step_one[OF Cons.prems, of ev] by blast
  then show ?case
  proof cases
    case blocked
    from Cons.IH[OF blocked] show ?thesis
      unfolding r ex_closed ex_fired all_blocked using Cons.prems by simp
  next
    case closed
    have "ShutdownManager_select p ?d = Some True"
      using closed by (simp add: ShutdownManager_select_def)
    then have s: "ShutdownManager_Shutdown p evs ?d = Some True" by (rule select_ready)
    have "\<And>n. done_chan (drain_run (take n evs) ?d)"
      using closed(1) by (rule drain_run_mono)
    moreover have "done_chan (drain_run (take 0 evs) ?d) \<and> \<not> timer_fired (drain_run (take 0 evs) ?d)"
      using closed by simp
    ultimately show ?thesis
      unfolding r s ex_closed ex_fired all_blocked using Cons.prems by auto
  next
    case fired
    have "ShutdownManager_select p ?d = Some False"
      using fired by (simp add: ShutdownManager_select_def)
    then have s: "ShutdownManager_Shutdown p evs ?d = Some False" by (rule select_ready)
    have "\<And>n. timer_fired (drain_run (take n evs) ?d)"
      using fired(1) by (rule drain_run_mono)
    moreover have "timer_fired (drain_run (take 0 evs) ?d) \<and> \<not> done_chan (drain_run (take 0 evs) ?d)"
      using fired by simp
    ultimately show ?thesis
      unfolding r s ex_closed ex_fired all_blocked using Cons.prems by auto
  qed
qed

lemmas drain_simps = ex_drain_def ShutdownManager_Shutdown_begin_def NewShutdownManager_def
  drain_step_def timer_fired_def ShutdownManager_Done_def ShutdownManager_Add_def
  ShutdownManager_select_def

text \<open>
  C9, as amended. \<^verbatim>\<open>ShutdownManager.Shutdown\<close> returns true only when \<^verbatim>\<open>done\<close> has been
  closed, which the waiting goroutine does only when it runs and finds the count at
  zero, and false only when the timer has fired. A caller that found no case ready
  returns true exactly when \<^verbatim>\<open>done\<close> is closed at a moment before the timer fires,
  false exactly when the timer fires at a moment before \<^verbatim>\<open>done\<close> is closed, and stays
  blocked exactly as long as neither has happened, so never past the moment the timer
  fires. A caller that looks when one case is ready returns that case; when both are
  ready it returns either, as Go picks. Nothing but a worker's own \<^verbatim>\<open>Done\<close> changes the
  manager: no worker is made to stop. \<^verbatim>\<open>Service.Shutdown\<close> ends in the same way with
  the caller's context in place of the timer: it returns nil only when \<^verbatim>\<open>done\<close> is
  closed, for which the count was zero, the error of the context only when the context
  is done, either when both hold, and blocks exactly while neither does.
\<close>

theorem Shutdown_returns_the_case_ready_first:
  "(\<not> done_chan d \<and> \<not> timer_fired d \<longrightarrow>
       (ShutdownManager_Shutdown p evs d = Some True \<longleftrightarrow>
          (\<exists>n \<le> length evs. done_chan (drain_run (take n evs) d) \<and>
                             \<not> timer_fired (drain_run (take n evs) d)))
     \<and> (ShutdownManager_Shutdown p evs d = Some False \<longleftrightarrow>
          (\<exists>n \<le> length evs. timer_fired (drain_run (take n evs) d) \<and>
                             \<not> done_chan (drain_run (take n evs) d)))
     \<and> (ShutdownManager_Shutdown p evs d = None \<longleftrightarrow>
          (\<forall>n \<le> length evs. \<not> done_chan (drain_run (take n evs) d) \<and>
                             \<not> timer_fired (drain_run (take n evs) d))))
   \<and> (\<not> crashed d \<and> done_chan d \<and> \<not> timer_fired d \<longrightarrow>
         ShutdownManager_Shutdown p evs d = Some True)
   \<and> (\<not> crashed d \<and> timer_fired d \<and> \<not> done_chan d \<longrightarrow>
         ShutdownManager_Shutdown p evs d = Some False)
   \<and> (\<not> crashed d \<and> done_chan d \<and> timer_fired d \<longrightarrow>
         ShutdownManager_Shutdown p evs d = Some p)
   \<and> (\<forall>ev. \<not> done_chan d \<and> done_chan (drain_step ev d) \<longrightarrow>
         wg (manager d) = 0 \<and> ev = Waiter_runs)
   \<and> (\<forall>ev. ev \<noteq> Worker_Done \<longrightarrow> manager (drain_step ev d) = manager d)
   \<and> (\<forall>ctx_Err t err.
         (Shutdown_select ctx_Err p t = Some None \<longrightarrow> done_closed t)
       \<and> (Shutdown_select ctx_Err p t = Some (Some err) \<longrightarrow> ctx_Err = Some err)
       \<and> (Shutdown_select ctx_Err p t = None \<longleftrightarrow> ctx_Err = None \<and> \<not> done_closed t)
       \<and> (done_closed t \<and> ctx_Err = None \<longrightarrow> Shutdown_select ctx_Err p t = Some None)
       \<and> (\<not> done_closed t \<and> ctx_Err = Some err \<longrightarrow>
            Shutdown_select ctx_Err p t = Some (Some err))
       \<and> (done_closed t \<and> ctx_Err = Some err \<longrightarrow>
            Shutdown_select ctx_Err p t = (if p then Some None else Some (Some err))))
   \<and> (\<forall>t a. \<not> done_closed t \<and> done_closed (step a t) \<longrightarrow> shutdownWg t = 0)"
proof -
  have 1: "\<not> crashed d \<and> done_chan d \<and> \<not> timer_fired d \<longrightarrow>
         ShutdownManager_Shutdown p evs d = Some True"
    by (simp add: select_ready ShutdownManager_select_def)
  have 2: "\<not> crashed d \<and> timer_fired d \<and> \<not> done_chan d \<longrightarrow>
         ShutdownManager_Shutdown p evs d = Some False"
    by (simp add: select_ready ShutdownManager_select_def)
  have 3: "\<not> crashed d \<and> done_chan d \<and> timer_fired d \<longrightarrow>
         ShutdownManager_Shutdown p evs d = Some p"
    by (simp add: select_ready ShutdownManager_select_def)
  have 4: "\<forall>ev. \<not> done_chan d \<and> done_chan (drain_step ev d) \<longrightarrow>
         wg (manager d) = 0 \<and> ev = Waiter_runs"
    using done_chan_step by blast
  have 5: "\<forall>ev. ev \<noteq> Worker_Done \<longrightarrow> manager (drain_step ev d) = manager d"
    using manager_step by blast
  have 6: "\<forall>ctx_Err t err.
         (Shutdown_select ctx_Err p t = Some None \<longrightarrow> done_closed t)
       \<and> (Shutdown_select ctx_Err p t = Some (Some err) \<longrightarrow> ctx_Err = Some err)
       \<and> (Shutdown_select ctx_Err p t = None \<longleftrightarrow> ctx_Err = None \<and> \<not> done_closed t)
       \<and> (done_closed t \<and> ctx_Err = None \<longrightarrow> Shutdown_select ctx_Err p t = Some None)
       \<and> (\<not> done_closed t \<and> ctx_Err = Some err \<longrightarrow>
            Shutdown_select ctx_Err p t = Some (Some err))
       \<and> (done_closed t \<and> ctx_Err = Some err \<longrightarrow>
            Shutdown_select ctx_Err p t = (if p then Some None else Some (Some err)))"
    by (auto simp: Shutdown_select_def split: option.splits if_splits)
  have 7: "\<forall>t a. \<not> done_closed t \<and> done_closed (step a t) \<longrightarrow> shutdownWg t = 0"
    using done_closed_step by blast
  show ?thesis
    using Shutdown_parked[of d p evs] 1 2 3 4 5 6 7 by blast
qed

theorem Shutdown_returns_the_case_ready_first_witness:
  "ShutdownManager_Shutdown True
     [Time_passes 1000, Worker_Done, Waiter_runs, Time_passes 5000000000] ex_drain = Some True
   \<and> ShutdownManager_Shutdown True
     [Time_passes 5000000000, Worker_Done, Waiter_runs] ex_drain = Some False
   \<and> ShutdownManager_Shutdown True [Time_passes 1000, Worker_Done] ex_drain = None"
proof -
  have h: "\<not> done_chan ex_drain \<and> \<not> timer_fired ex_drain"
    by (simp add: drain_simps)
  note t = Shutdown_returns_the_case_ready_first [THEN conjunct1, rule_format, OF h]
  let ?a = "[Time_passes 1000, Worker_Done, Waiter_runs, Time_passes 5000000000]"
  let ?b = "[Time_passes 5000000000, Worker_Done, Waiter_runs]"
  let ?c = "[Time_passes 1000, Worker_Done]"
  have "done_chan (drain_run (take 3 ?a) ex_drain) \<and> \<not> timer_fired (drain_run (take 3 ?a) ex_drain)"
    by (simp add: drain_simps numeral_3_eq_3)
  then have "\<exists>n \<le> length ?a. done_chan (drain_run (take n ?a) ex_drain) \<and>
      \<not> timer_fired (drain_run (take n ?a) ex_drain)"
    by (intro exI[of _ 3]) simp
  then have a: "ShutdownManager_Shutdown True ?a ex_drain = Some True"
    using t [of True ?a, THEN conjunct1] by blast
  have "timer_fired (drain_run (take 1 ?b) ex_drain) \<and> \<not> done_chan (drain_run (take 1 ?b) ex_drain)"
    by (simp add: drain_simps)
  then have "\<exists>n \<le> length ?b. timer_fired (drain_run (take n ?b) ex_drain) \<and>
      \<not> done_chan (drain_run (take n ?b) ex_drain)"
    by (intro exI[of _ 1]) simp
  then have b: "ShutdownManager_Shutdown True ?b ex_drain = Some False"
    using t [of True ?b, THEN conjunct2, THEN conjunct1] by blast
  have "\<forall>n \<le> length ?c. \<not> done_chan (drain_run (take n ?c) ex_drain) \<and>
      \<not> timer_fired (drain_run (take n ?c) ex_drain)"
    by (auto simp: drain_simps le_Suc_eq)
  then have c: "ShutdownManager_Shutdown True ?c ex_drain = None"
    using t [of True ?c, THEN conjunct2, THEN conjunct2] by blast
  show ?thesis using a b c by blast
qed

text \<open>
  C9 as stated fails. With one worker outstanding, the worker calls \<^verbatim>\<open>Done\<close> one
  nanosecond before the five seconds are over: the count is zero before the deadline.
  The goroutine that waits on the wait group has not run yet when the timer fires, and
  \<^verbatim>\<open>Shutdown\<close> returns false. And when the caller looks only after both \<^verbatim>\<open>done\<close>
  was closed and the timer has fired, in either order, what it returns is Go's pick
  between the two ready cases. So it is with \<^verbatim>\<open>Service.Shutdown\<close>: once the root
  context is cancelled as well, all loops return, the count is zero and \<^verbatim>\<open>done\<close> is
  closed, and a caller whose context has expired by then may still get the error of its
  context.
\<close>

theorem count_zero_before_the_deadline_counterexample:
  "wg (manager (drain_run [Time_passes 4999999999, Worker_Done] ex_drain)) = 0
   \<and> \<not> timer_fired (drain_run [Time_passes 4999999999, Worker_Done] ex_drain)
   \<and> ShutdownManager_Shutdown True
        [Time_passes 4999999999, Worker_Done, Time_passes 1, Waiter_runs] ex_drain = Some False
   \<and> ShutdownManager_Shutdown False []
        (drain_run [Worker_Done, Waiter_runs, Time_passes 5000000000] ex_drain) = Some False
   \<and> ShutdownManager_Shutdown True []
        (drain_run [Time_passes 5000000000, Worker_Done, Waiter_runs] ex_drain) = Some True
   \<and> shutdownWg (run [Poll_done 0, Poll_done 1, Init 3, Watch_done 2, Wait_return 3]
        (call_cancel 0 (Shutdown_begin (ex_running [ex_A, ex_B])))) = 0
   \<and> done_closed (run [Poll_done 0, Poll_done 1, Init 3, Watch_done 2, Wait_return 3]
        (call_cancel 0 (Shutdown_begin (ex_running [ex_A, ex_B]))))
   \<and> Shutdown_select (Some ''context deadline exceeded'') False
        (run [Poll_done 0, Poll_done 1, Init 3, Watch_done 2, Wait_return 3]
          (call_cancel 0 (Shutdown_begin (ex_running [ex_A, ex_B])))) =
        Some (Some ''context deadline exceeded'')"
  by (simp add: drain_simps ex_simps run_simps cancel_endpoints_eq scope_of_def)

section \<open>The scopes of the polling loops\<close>

lemma descends_refl [simp]: "descends c c"
  by (cases c) simp_all

lemma Start_endpoints_goroutines:
  "\<exists>new. goroutines (fst (Start_endpoints c es s)) = goroutines s @ new \<and>
         (\<forall>g \<in> set new. \<exists>i monitor. g = (Go_monitorEndpoint (WithCancel i c) monitor, Created))"
proof (induction es arbitrary: s)
  case Nil
  show ?case by simp
next
  case (Cons e es)
  show ?case
  proof (cases "Enabled e")
    case False
    then show ?thesis using Cons.IH[of s] by simp
  next
    case True
    from Cons.IH[of "fst (startEndpoint c e s)"] obtain new where
      n: "goroutines (fst (Start_endpoints c es (fst (startEndpoint c e s)))) =
           goroutines (fst (startEndpoint c e s)) @ new"
         "\<forall>g \<in> set new. \<exists>i monitor. g = (Go_monitorEndpoint (WithCancel i c) monitor, Created)"
      by blast
    show ?thesis
      using True n
      by (intro exI[of _ "(Go_monitorEndpoint (WithCancel (next_scope s) c) (next_ptr s), Created) # new"])
         auto
  qed
qed

text \<open>
  The goroutines that \<^verbatim>\<open>Start\<close> creates, the polling loops and the watcher, all listen
  on the root context or on a scope derived from it.
\<close>

lemma Start_goroutines_descend:
  "\<exists>new. goroutines (fst (Start root s)) = goroutines s @ new \<and>
         (\<forall>g \<in> set new. descends (routine_ctx (fst g)) root)"
proof -
  from Start_endpoints_goroutines[of root "Endpoints (config s)" "mu_Lock s"] obtain new where
    n: "goroutines (fst (Start_endpoints root (Endpoints (config s)) (mu_Lock s))) = goroutines s @ new"
       "\<forall>g \<in> set new. \<exists>i monitor. g = (Go_monitorEndpoint (WithCancel i root) monitor, Created)"
    by auto
  have "goroutines (fst (Start root s)) = goroutines s @ (new @ [(Go_watchConfig root, Created)])"
    using n(1) Start_endpoints_nil[of root "Endpoints (config s)" "mu_Lock s"]
    by (cases "Start_endpoints root (Endpoints (config s)) (mu_Lock s)")
       (simp add: Start_def go_def wg_Add_def)
  moreover have "\<forall>g \<in> set (new @ [(Go_watchConfig root, Created)]). descends (routine_ctx (fst g)) root"
    using n(2) by auto
  ultimately show ?thesis by blast
qed

text \<open>
  C3 asks that every polling loop, also one started by a reconciliation, listens on a
  scope under the root scope given to \<^verbatim>\<open>Start\<close>. The reconciliation calls
  \<^verbatim>\<open>startEndpoint\<close> with \<^verbatim>\<open>context.Background()\<close> instead. In the service started on
  endpoint \<open>A\<close>, a reload that changes the interval of \<open>A\<close> and adds \<open>B\<close> creates two
  polling loops on the scopes 2 and 3, directly under the background context and
  registered in the map; neither descends from the root scope 0, and when the root scope
  is cancelled the root context is done while those two are not.
\<close>

theorem reload_starts_monitors_outside_the_root:
  "goroutines (fst (reloadConfig (Inr (ex_config [ex_A_faster, ex_B])) (ex_running [ex_A]))) =
     [(Go_monitorEndpoint (WithCancel 1 ex_root) 1, Running), (Go_watchConfig ex_root, Running),
      (Go_monitorEndpoint (WithCancel 2 Background) 2, Created),
      (Go_monitorEndpoint (WithCancel 3 Background) 3, Created)]
   \<and> endpoints (fst (reloadConfig (Inr (ex_config [ex_A_faster, ex_B])) (ex_running [ex_A]))) =
     [(''https://a.example'', 2), (''https://b.example'', 3)]
   \<and> \<not> descends (WithCancel 2 Background) ex_root
   \<and> \<not> descends (WithCancel 3 Background) ex_root
   \<and> cancelled (call_cancel 0 (fst (reloadConfig (Inr (ex_config [ex_A_faster, ex_B])) (ex_running [ex_A]))))
       = {0, 1}
   \<and> ctx_Done (cancelled (call_cancel 0
         (fst (reloadConfig (Inr (ex_config [ex_A_faster, ex_B])) (ex_running [ex_A]))))) ex_root
   \<and> \<not> ctx_Done (cancelled (call_cancel 0
         (fst (reloadConfig (Inr (ex_config [ex_A_faster, ex_B])) (ex_running [ex_A])))))
         (WithCancel 2 Background)
   \<and> \<not> ctx_Done (cancelled (call_cancel 0
         (fst (reloadConfig (Inr (ex_config [ex_A_faster, ex_B])) (ex_running [ex_A])))))
         (WithCancel 3 Background)"
  by (simp add: ex_simps ex_A_faster_def reloadConfig_def endpointConfigEqual_def sliceEqual_def
      remove_endpoints_eq removed_def scope_of_def eval_nat_numeral)

section \<open>The first loop of the reconciliation, pass by pass\<close>

lemma sliceEqual_from_eq: "length a = length b \<Longrightarrow> sliceEqual_from a b \<longleftrightarrow> a = b"
  by (induction a b rule: sliceEqual_from.induct) auto

lemma sliceEqual_eq: "sliceEqual a b \<longleftrightarrow> a = b"
  using sliceEqual_from_eq[of a b] by (auto simp: sliceEqual_def)

lemma endpointConfigEqual_iff:
  "endpointConfigEqual a b \<longleftrightarrow>
     URL a = URL b \<and> Interval a = Interval b \<and> Timeout a = Timeout b \<and> Name a = Name b \<and>
     Tags a = Tags b"
  by (simp add: endpointConfigEqual_def sliceEqual_eq)

lemma map_index_simps:
  "map_of m k = Some p \<Longrightarrow> map_index m k = (p, True)"
  "map_of m k = None \<Longrightarrow> map_index m k = (0, False)"
  "map_index (AList.update k p m) k = (p, True)"
  by (simp_all add: map_index_def update_conv')

lemma reload_step_disabled:
  "\<not> Enabled e \<Longrightarrow> reload_step e (new, s) = (new, s)"
  by (simp add: reload_step_def)

lemma reload_step_same:
  "Enabled e \<Longrightarrow> map_of (endpoints s) (URL e) = Some m \<Longrightarrow>
   endpointConfigEqual (endpoint (heap s m)) e \<Longrightarrow>
     reload_step e (new, s) = (AList.update (URL e) m new, s)"
  by (simp add: reload_step_def map_index_simps map_assign_def)

lemma reload_step_changed:
  "Enabled e \<Longrightarrow> map_of (endpoints s) (URL e) = Some m \<Longrightarrow>
   \<not> endpointConfigEqual (endpoint (heap s m)) e \<Longrightarrow>
     reload_step e (new, s) =
       (AList.update (URL e) (next_ptr s) new,
        fst (startEndpoint Background e
              (call_cancel (cancel (heap s m)) (logger_Printf (Updating_configuration (URL e)) s))))"
  by (simp add: reload_step_def map_index_simps map_assign_def)

lemma reload_step_new:
  "Enabled e \<Longrightarrow> map_of (endpoints s) (URL e) = None \<Longrightarrow>
     reload_step e (new, s) =
       (AList.update (URL e) (next_ptr s) new,
        fst (startEndpoint Background e (logger_Printf (Adding_new_endpoint (URL e)) s)))"
  by (simp add: reload_step_def map_index_simps map_assign_def)

lemma reload_endpoints_Cons:
  "fst (reload_endpoints (e # es) new s) =
     fst (reload_endpoints es (fst (reload_step e (new, s))) (snd (reload_step e (new, s))))"
  by (simp add: reload_step_def split_beta Let_def)

lemma reload_endpoints_fold: "fst (reload_endpoints es new s) = fold reload_step es (new, s)"
proof (induction es arbitrary: new s)
  case Nil
  show ?case by simp
next
  case (Cons e es)
  show ?case
    using Cons.IH[of "fst (reload_step e (new, s))" "snd (reload_step e (new, s))"]
    by (simp only: reload_endpoints_Cons fold_simps prod.collapse)
qed

lemma reload_endpoints_append:
  "fst (reload_endpoints (xs @ ys) new s) =
     fst (reload_endpoints ys (fst (fst (reload_endpoints xs new s)))
            (snd (fst (reload_endpoints xs new s))))"
  by (simp add: reload_endpoints_fold)

lemma reloadConfig_Inr:
  "reloadConfig (Inr cfg) s =
     (let (new, s1) = fold reload_step (Endpoints (Monitor cfg))
                        ([], mu_Lock (logger_Printf Reloading_configuration s))
      in (mu_Unlock ((remove_endpoints (endpoints s1) new s1)
                       \<lparr> endpoints := new, config := Monitor cfg \<rparr>), None))"
proof -
  let ?r = "reload_endpoints (Endpoints (Monitor cfg)) [] (mu_Lock (logger_Printf Reloading_configuration s))"
  have "?r = (fold reload_step (Endpoints (Monitor cfg))
                ([], mu_Lock (logger_Printf Reloading_configuration s)), None)"
    using reload_endpoints_nil[of "Endpoints (Monitor cfg)" "[]" "mu_Lock (logger_Printf Reloading_configuration s)"]
      reload_endpoints_fold[of "Endpoints (Monitor cfg)" "[]" "mu_Lock (logger_Printf Reloading_configuration s)"]
    by (simp add: prod_eq_iff)
  then show ?thesis
    by (simp add: reloadConfig_def Let_def split_beta)
qed

text \<open>One pass of the first loop, case by case, in terms of what it leaves.\<close>

lemma reload_step_cases:
  obtains (disabled) "\<not> Enabled e" "reload_step e (new, s) = (new, s)"
  | (same) m where "Enabled e" "map_of (endpoints s) (URL e) = Some m"
      "endpointConfigEqual (endpoint (heap s m)) e"
      "reload_step e (new, s) = (AList.update (URL e) m new, s)"
  | (changed) m where "Enabled e" "map_of (endpoints s) (URL e) = Some m"
      "\<not> endpointConfigEqual (endpoint (heap s m)) e"
      "reload_step e (new, s) =
         (AList.update (URL e) (next_ptr s) new,
          fst (startEndpoint Background e
                (call_cancel (cancel (heap s m)) (logger_Printf (Updating_configuration (URL e)) s))))"
  | (new) "Enabled e" "map_of (endpoints s) (URL e) = None"
      "reload_step e (new, s) =
         (AList.update (URL e) (next_ptr s) new,
          fst (startEndpoint Background e (logger_Printf (Adding_new_endpoint (URL e)) s)))"
  using reload_step_disabled[of e new s] reload_step_same[of e s _ new]
    reload_step_changed[of e s _ new] reload_step_new[of e s new]
  by (cases "map_of (endpoints s) (URL e)") blast+

lemma reload_step_grows:
  "next_ptr s \<le> next_ptr (snd (reload_step e (new, s)))
   \<and> next_scope s \<le> next_scope (snd (reload_step e (new, s)))
   \<and> (\<forall>p. p < next_ptr s \<longrightarrow> heap (snd (reload_step e (new, s))) p = heap s p)
   \<and> (\<forall>u. u \<noteq> URL e \<longrightarrow>
          map_of (endpoints (snd (reload_step e (new, s)))) u = map_of (endpoints s) u)
   \<and> (\<forall>u. u \<noteq> URL e \<longrightarrow> map_of (fst (reload_step e (new, s))) u = map_of new u)
   \<and> (\<not> Enabled e \<longrightarrow> map_of (endpoints (snd (reload_step e (new, s)))) = map_of (endpoints s))
   \<and> (\<exists>rest. history (snd (reload_step e (new, s))) = history s @ rest)"
  by (cases e new s rule: reload_step_cases) (simp_all add: update_conv')

lemma fold_reload_step_grows:
  "next_ptr s \<le> next_ptr (snd (fold reload_step es (new, s)))
   \<and> next_scope s \<le> next_scope (snd (fold reload_step es (new, s)))
   \<and> (\<forall>p. p < next_ptr s \<longrightarrow> heap (snd (fold reload_step es (new, s))) p = heap s p)
   \<and> (\<forall>u. u \<notin> set (enabled_urls es) \<longrightarrow>
          map_of (endpoints (snd (fold reload_step es (new, s)))) u = map_of (endpoints s) u)
   \<and> (\<exists>rest. history (snd (fold reload_step es (new, s))) = history s @ rest)"
proof (induction es arbitrary: new s)
  case Nil
  show ?case by simp
next
  case (Cons e es)
  let ?ns = "reload_step e (new, s)"
  note st = reload_step_grows[of s e new]
  note ih = Cons.IH[where new = "fst ?ns" and s = "snd ?ns"]
  have f: "fold reload_step (e # es) (new, s) = fold reload_step es (fst ?ns, snd ?ns)"
    by simp
  have 1: "next_ptr s \<le> next_ptr (snd (fold reload_step (e # es) (new, s)))"
    unfolding f using st ih by linarith
  have 2: "next_scope s \<le> next_scope (snd (fold reload_step (e # es) (new, s)))"
    unfolding f using st ih by linarith
  have 3: "\<forall>p. p < next_ptr s \<longrightarrow> heap (snd (fold reload_step (e # es) (new, s))) p = heap s p"
    unfolding f using st ih by (metis (no_types, lifting) less_le_trans)
  have 4: "\<forall>u. u \<notin> set (enabled_urls (e # es)) \<longrightarrow>
          map_of (endpoints (snd (fold reload_step (e # es) (new, s)))) u = map_of (endpoints s) u"
  proof (intro allI impI)
    fix u assume u: "u \<notin> set (enabled_urls (e # es))"
    then have "u \<notin> set (enabled_urls es)" by (auto simp: enabled_urls_def)
    then have a: "map_of (endpoints (snd (fold reload_step (e # es) (new, s)))) u =
        map_of (endpoints (snd ?ns)) u"
      unfolding f using ih by blast
    have "map_of (endpoints (snd ?ns)) u = map_of (endpoints s) u"
    proof (cases "Enabled e")
      case True
      then have "u \<noteq> URL e" using u by (auto simp: enabled_urls_def)
      then show ?thesis using st by blast
    next
      case False
      then show ?thesis using st by simp
    qed
    then show "map_of (endpoints (snd (fold reload_step (e # es) (new, s)))) u = map_of (endpoints s) u"
      using a by simp
  qed
  have 5: "\<exists>rest. history (snd (fold reload_step (e # es) (new, s))) = history s @ rest"
    unfolding f using st ih by (metis append.assoc)
  show ?case using 1 2 3 4 5 by blast
qed

lemma allocated_start:
  assumes "allocated s" and "next_scope t = next_scope s" and "next_ptr t = next_ptr s"
    and "heap t = heap s" and "endpoints t = endpoints s" and "cancelled t \<subseteq> {..<next_scope s}"
  shows "allocated (fst (startEndpoint c e t))"
  unfolding allocated_def
proof (intro conjI ballI; (intro allI impI)?)
  fix u p
  assume "map_of (endpoints (fst (startEndpoint c e t))) u = Some p"
  then have "p = next_ptr s \<or> map_of (endpoints s) u = Some p"
    using assms by (simp add: update_conv' split: if_splits)
  then show "p < next_ptr (fst (startEndpoint c e t)) \<and>
     cancel (heap (fst (startEndpoint c e t)) p) < next_scope (fst (startEndpoint c e t))"
    using assms unfolding allocated_def by (auto simp: less_Suc_eq)
next
  fix i assume "i \<in> cancelled (fst (startEndpoint c e t))"
  then show "i < next_scope (fst (startEndpoint c e t))"
    using assms by (auto simp: less_Suc_eq)
qed

lemma allocated_reload_step:
  assumes "allocated s"
  shows "allocated (snd (reload_step e (new, s)))"
proof (cases e new s rule: reload_step_cases)
  case disabled
  then show ?thesis using assms by simp
next
  case (same m)
  then show ?thesis using assms by simp
next
  case (changed m)
  have "cancel (heap s m) < next_scope s"
    using assms changed(2) unfolding allocated_def by blast
  then have "cancelled (call_cancel (cancel (heap s m)) (logger_Printf (Updating_configuration (URL e)) s))
      \<subseteq> {..<next_scope s}"
    using assms unfolding allocated_def by auto
  then show ?thesis
    unfolding changed(4) snd_conv
    by (intro allocated_start[OF assms]) simp_all
next
  case new
  have "cancelled (logger_Printf (Adding_new_endpoint (URL e)) s) \<subseteq> {..<next_scope s}"
    using assms unfolding allocated_def by auto
  then show ?thesis
    unfolding new(3) snd_conv
    by (intro allocated_start[OF assms]) simp_all
qed


lemma allocated_lock: "allocated (mu_Lock (logger_Printf l s)) = allocated s"
  by (simp add: allocated_def)


section \<open>Where a reconciliation starts its polling loops\<close>

text \<open>
  Every goroutine that a reconciliation starts is a polling loop on a new scope put
  directly under the background context, whatever the state and the configuration
  fetched. When the root context is a scope of its own, no such loop descends from it
  and cancelling the root context reaches none of them.
\<close>

lemma reload_step_goroutines:
  "\<exists>gs. goroutines (snd (reload_step e (new, s))) = goroutines s @ gs \<and>
     (\<forall>g \<in> set gs. \<exists>i m. next_scope s \<le> i \<and>
        g = (Go_monitorEndpoint (WithCancel i Background) m, Created))"
  by (cases e new s rule: reload_step_cases) simp_all

lemma fold_reload_step_goroutines:
  "\<exists>gs. goroutines (snd (fold reload_step es (new, s))) = goroutines s @ gs \<and>
     (\<forall>g \<in> set gs. \<exists>i m. next_scope s \<le> i \<and>
        g = (Go_monitorEndpoint (WithCancel i Background) m, Created))"
proof (induction es arbitrary: new s)
  case Nil
  show ?case by simp
next
  case (Cons e es)
  let ?ns = "reload_step e (new, s)"
  obtain ga where a: "goroutines (snd ?ns) = goroutines s @ ga"
    "\<forall>g \<in> set ga. \<exists>i m. next_scope s \<le> i \<and>
        g = (Go_monitorEndpoint (WithCancel i Background) m, Created)"
    using reload_step_goroutines[of e new s] by blast
  obtain gb where b: "goroutines (snd (fold reload_step es (fst ?ns, snd ?ns))) =
      goroutines (snd ?ns) @ gb"
    "\<forall>g \<in> set gb. \<exists>i m. next_scope (snd ?ns) \<le> i \<and>
        g = (Go_monitorEndpoint (WithCancel i Background) m, Created)"
    using Cons.IH[where new = "fst ?ns" and s = "snd ?ns"] by blast
  have le: "next_scope s \<le> next_scope (snd ?ns)"
    using reload_step_grows[of s e new] by blast
  have "\<forall>g \<in> set gb. \<exists>i m. next_scope s \<le> i \<and>
        g = (Go_monitorEndpoint (WithCancel i Background) m, Created)"
  proof
    fix g assume "g \<in> set gb"
    then obtain i m where "next_scope (snd ?ns) \<le> i"
      "g = (Go_monitorEndpoint (WithCancel i Background) m, Created)"
      using b(2) by blast
    then show "\<exists>i m. next_scope s \<le> i \<and>
        g = (Go_monitorEndpoint (WithCancel i Background) m, Created)"
      using le by (intro exI[of _ i] exI[of _ m]) simp
  qed
  then have "\<forall>g \<in> set (ga @ gb). \<exists>i m. next_scope s \<le> i \<and>
        g = (Go_monitorEndpoint (WithCancel i Background) m, Created)"
    using a(2) by auto
  moreover have "goroutines (snd (fold reload_step (e # es) (new, s))) = goroutines s @ (ga @ gb)"
    using a(1) b(1) by simp
  ultimately show ?case by blast
qed

lemma reloadConfig_goroutines:
  "\<exists>gs. goroutines (fst (reloadConfig r s)) = goroutines s @ gs \<and>
     (\<forall>g \<in> set gs. \<exists>i m. next_scope s \<le> i \<and>
        g = (Go_monitorEndpoint (WithCancel i Background) m, Created))"
proof (cases r)
  case (Inl err)
  then show ?thesis by (simp add: reloadConfig_def)
next
  case (Inr cfg)
  let ?L = "mu_Lock (logger_Printf Reloading_configuration s)"
  obtain gs where n: "goroutines (snd (fold reload_step (Endpoints (Monitor cfg)) ([], ?L))) =
      goroutines ?L @ gs"
    "\<forall>g \<in> set gs. \<exists>i m. next_scope ?L \<le> i \<and>
        g = (Go_monitorEndpoint (WithCancel i Background) m, Created)"
    using fold_reload_step_goroutines[of "Endpoints (Monitor cfg)" "[]" ?L] by blast
  have "goroutines (fst (reloadConfig r s)) = goroutines s @ gs"
    using n(1) by (simp add: Inr reloadConfig_Inr split_beta remove_endpoints_eq)
  then show ?thesis using n(2) by auto
qed

lemma reloadConfig_goroutines_outside_the_root:
  assumes "root \<noteq> Background" and "\<forall>i \<in> scopes root. i < next_scope s"
  shows "\<exists>gs. goroutines (fst (reloadConfig r s)) = goroutines s @ gs \<and>
     (\<forall>g \<in> set gs. \<not> descends (routine_ctx (fst g)) root \<and>
        scopes (routine_ctx (fst g)) \<inter> scopes root = {})"
proof -
  obtain gs where n: "goroutines (fst (reloadConfig r s)) = goroutines s @ gs"
    "\<forall>g \<in> set gs. \<exists>i m. next_scope s \<le> i \<and>
        g = (Go_monitorEndpoint (WithCancel i Background) m, Created)"
    using reloadConfig_goroutines[of r s] by blast
  have "\<forall>g \<in> set gs. \<not> descends (routine_ctx (fst g)) root \<and>
        scopes (routine_ctx (fst g)) \<inter> scopes root = {}"
  proof
    fix g assume "g \<in> set gs"
    then obtain i m where g: "next_scope s \<le> i"
      "g = (Go_monitorEndpoint (WithCancel i Background) m, Created)"
      using n(2) by blast
    have "i \<notin> scopes root" using g(1) assms(2) by fastforce
    moreover from this have "WithCancel i Background \<noteq> root" by auto
    ultimately show "\<not> descends (routine_ctx (fst g)) root \<and>
        scopes (routine_ctx (fst g)) \<inter> scopes root = {}"
      using assms(1) g(2) by auto
  qed
  then show ?thesis using n(1) by blast
qed

section \<open>The examples, evaluated\<close>

lemma ex_fields:
  "URL ex_A = ''https://a.example''" "Name ex_A = ''A''" "Interval ex_A = 60000000000"
  "Timeout ex_A = 10000000000" "Tags ex_A = [''production'']" "Enabled ex_A"
  "Description ex_A = ''first''"
  "URL ex_B = ''https://b.example''" "Name ex_B = ''B''" "Interval ex_B = 30000000000"
  "Timeout ex_B = 5000000000" "Tags ex_B = []" "Enabled ex_B"
  "URL ex_A_faster = ''https://a.example''" "Name ex_A_faster = ''A''"
  "Interval ex_A_faster = 30000000000" "Timeout ex_A_faster = 10000000000"
  "Tags ex_A_faster = [''production'']" "Enabled ex_A_faster"
  "URL ex_A_described = ''https://a.example''" "Name ex_A_described = ''A''"
  "Interval ex_A_described = 60000000000" "Timeout ex_A_described = 10000000000"
  "Tags ex_A_described = [''production'']" "Enabled ex_A_described"
  "Description ex_A_described = ''first, renamed''"
  by (simp_all add: ex_A_def ex_B_def ex_A_faster_def ex_A_described_def)

lemma ex_running_A:
  "endpoints (ex_running [ex_A]) = [(''https://a.example'', Suc 0)]"
  "heap (ex_running [ex_A]) (Suc 0) = \<lparr> endpoint = ex_A, cancel = Suc 0, lastCheck = 0 \<rparr>"
  "next_ptr (ex_running [ex_A]) = 2" "next_scope (ex_running [ex_A]) = 2"
  "cancelled (ex_running [ex_A]) = {}"
  "goroutines (ex_running [ex_A]) =
     [(Go_monitorEndpoint (WithCancel (Suc 0) ex_root) (Suc 0), Running), (Go_watchConfig ex_root, Running)]"
  "config (ex_running [ex_A]) = Monitor (ex_config [ex_A])"
  by (simp_all add: ex_running_def ex_started_def ex_config_def ex_root_def
      NewService_def context_WithCancel_def Start_def mu_Lock_def mu_Unlock_def go_def wg_Add_def
      step_def goroutine_at_def set_phase_def time_NewTicker_def ex_fields eval_nat_numeral)

lemma allocated_ex_running_A: "allocated (ex_running [ex_A])"
  by (simp add: allocated_def ex_running_A)



section \<open>Reconciling with the configuration that is already running\<close>

lemma matches_heap: "heap t = heap s \<Longrightarrow> matches t = matches s"
  by (simp add: matches_def fun_eq_iff)

lemma update_fresh: "k \<notin> fst ` set al \<Longrightarrow> AList.update k v al = al @ [(k, v)]"
  by (induction al) auto

lemma map_index_present: "k \<in> fst ` set al \<Longrightarrow> snd (map_index al k)"
  by (auto simp: map_index_def map_of_eq_None_iff split: option.splits)

lemma removed_self: "removed al al = []"
  by (auto simp: removed_def filter_empty_conv map_index_present)

lemma fold_reload_step_in_step:
  assumes "endpoints s = done @ todo" and "distinct (map fst (done @ todo))"
    and "list_all2 (matches s) todo (filter Enabled es)"
  shows "fold reload_step es (done, s) = (done @ todo, s)"
  using assms
proof (induction es arbitrary: "done" todo)
  case Nil
  then show ?case by simp
next
  case (Cons e es)
  show ?case
  proof (cases "Enabled e")
    case False
    then show ?thesis using Cons by (simp add: reload_step_disabled)
  next
    case True
    with Cons.prems(3) obtain x todo' where
      todo: "todo = x # todo'" and x: "matches s x e" and rest: "list_all2 (matches s) todo' (filter Enabled es)"
      by (auto simp: list_all2_Cons2)
    obtain m where xm: "x = (URL e, m)" using x by (cases x) (simp add: matches_def)
    have fresh: "URL e \<notin> fst ` set done"
      using Cons.prems(2) by (auto simp: todo xm)
    then have "map_of done (URL e) = None"
      by (simp add: map_of_eq_None_iff)
    then have look: "map_of (endpoints s) (URL e) = Some m"
      using Cons.prems(1) by (simp add: todo xm map_add_def)
    have eq: "endpointConfigEqual (endpoint (heap s m)) e"
      using x by (simp add: matches_def xm)
    have step: "reload_step e (done, s) = (done @ [x], s)"
      by (simp add: reload_step_same[OF True look eq] update_fresh[OF fresh] xm)
    have "fold reload_step es (done @ [x], s) = ((done @ [x]) @ todo', s)"
      using Cons.prems(1,2) rest by (intro Cons.IH) (simp_all add: todo)
    then show ?thesis by (simp add: step todo)
  qed
qed

lemma reloadConfig_in_step:
  assumes "in_step s (Endpoints (Monitor cfg))"
  shows "reloadConfig (Inr cfg) s =
     (s \<lparr> logger := logger s @ [Reloading_configuration], config := Monitor cfg,
          history := history s @ [Lock, Unlock] \<rparr>, None)"
proof -
  let ?L = "mu_Lock (logger_Printf Reloading_configuration s)"
  have "fold reload_step (Endpoints (Monitor cfg)) ([], ?L) = ([] @ endpoints s, ?L)"
    using assms unfolding in_step_def
    by (intro fold_reload_step_in_step) (simp_all add: matches_heap[of ?L s])
  then show ?thesis
    by (simp add: reloadConfig_Inr remove_endpoints_eq removed_self)
qed

lemma endpointConfigEqual_refl [simp]: "endpointConfigEqual e e"
  by (simp add: endpointConfigEqual_iff)

lemma fold_reload_step_builds:
  assumes "allocated s" and "distinct (enabled_urls es)"
    and "set (enabled_urls es) \<inter> fst ` set new = {}"
    and "list_all2 (matches s) new ds" and "\<forall>x \<in> set new. snd x < next_ptr s"
  shows "list_all2 (matches (snd (fold reload_step es (new, s)))) (fst (fold reload_step es (new, s)))
           (ds @ filter Enabled es)"
  using assms
proof (induction es arbitrary: new s ds)
  case Nil
  then show ?case by simp
next
  case (Cons e es)
  show ?case
  proof (cases "Enabled e")
    case False
    then show ?thesis
      using Cons.prems Cons.IH[of s new ds]
      by (simp add: reload_step_disabled enabled_urls_def)
  next
    case True
    let ?n = "fst (reload_step e (new, s))" and ?t = "snd (reload_step e (new, s))"
    have fresh: "URL e \<notin> fst ` set new"
      using Cons.prems(3) True by (auto simp: enabled_urls_def)
    have rest: "distinct (enabled_urls es)" "URL e \<notin> set (enabled_urls es)"
      using Cons.prems(2) True by (auto simp: enabled_urls_def)
    have al: "allocated ?t"
      using Cons.prems(1) by (rule allocated_reload_step)
    have grow: "next_ptr s \<le> next_ptr ?t" "\<forall>p. p < next_ptr s \<longrightarrow> heap ?t p = heap s p"
      using reload_step_grows[of s e new] by blast+
    have old: "list_all2 (matches ?t) new ds"
      using Cons.prems(4,5) grow(2)
      by (auto simp: list_all2_conv_all_nth matches_def)
    obtain p where n: "?n = new @ [(URL e, p)]" and pm: "matches ?t (URL e, p) e"
      and pa: "p < next_ptr ?t"
    proof (cases e new s rule: reload_step_cases)
      case disabled
      then show ?thesis using True by simp
    next
      case (same m)
      have "m < next_ptr s" using Cons.prems(1) same(2) unfolding allocated_def by blast
      then show ?thesis
        using same that[of m] by (simp add: update_fresh[OF fresh] matches_def)
    next
      case (changed m)
      then show ?thesis
        using that[of "next_ptr s"] by (simp add: update_fresh[OF fresh] matches_def)
    next
      case new
      then show ?thesis
        using that[of "next_ptr s"] by (simp add: update_fresh[OF fresh] matches_def)
    qed
    have 1: "set (enabled_urls es) \<inter> fst ` set ?n = {}"
      using Cons.prems(3) rest(2) True by (auto simp: n enabled_urls_def)
    have 2: "list_all2 (matches ?t) ?n (ds @ [e])"
      using old pm by (simp add: n list_all2_appendI)
    have 3: "\<forall>x \<in> set ?n. snd x < next_ptr ?t"
      using Cons.prems(5) grow(1) pa by (auto simp: n)
    from Cons.IH[OF al rest(1) 1 2 3] show ?thesis
      using True by simp
  qed
qed

lemma list_all2_matches_keys: "list_all2 (matches s) al es \<Longrightarrow> map fst al = map URL es"
  by (induction al es rule: list_all2_induct) (simp_all add: matches_def)

lemma reloadConfig_establishes_in_step:
  assumes "allocated s" and "distinct (enabled_urls (Endpoints (Monitor cfg)))"
  shows "in_step (fst (reloadConfig (Inr cfg) s)) (Endpoints (Monitor cfg))"
proof -
  let ?L = "mu_Lock (logger_Printf Reloading_configuration s)"
  let ?r = "fold reload_step (Endpoints (Monitor cfg)) ([], ?L)"
  have "allocated ?L" using assms(1) by (simp add: allocated_lock)
  then have m: "list_all2 (matches (snd ?r)) (fst ?r) ([] @ filter Enabled (Endpoints (Monitor cfg)))"
    using assms(2) by (intro fold_reload_step_builds) simp_all
  then have k: "map fst (fst ?r) = enabled_urls (Endpoints (Monitor cfg))"
    using list_all2_matches_keys[of "snd ?r" "fst ?r"] by (simp add: enabled_urls_def)
  let ?s' = "fst (reloadConfig (Inr cfg) s)"
  have e: "endpoints ?s' = fst ?r" "heap ?s' = heap (snd ?r)"
    by (simp_all add: reloadConfig_Inr split_beta remove_endpoints_eq)
  show ?thesis
    unfolding in_step_def e(1) matches_heap[OF e(2)] using m k assms(2) by simp
qed

lemma list_all2_matches_frame:
  "list_all2 (matches s) al es \<Longrightarrow> \<forall>x \<in> set al. heap t (snd x) = heap s (snd x) \<Longrightarrow>
     list_all2 (matches t) al es"
  by (induction al es rule: list_all2_induct) (simp_all add: matches_def)

lemma Start_endpoints_builds:
  assumes "distinct (enabled_urls es)"
    and "set (enabled_urls es) \<inter> fst ` set (endpoints s) = {}"
    and "list_all2 (matches s) (endpoints s) ds" and "\<forall>x \<in> set (endpoints s). snd x < next_ptr s"
  shows "list_all2 (matches (fst (Start_endpoints c es s))) (endpoints (fst (Start_endpoints c es s)))
           (ds @ filter Enabled es)"
  using assms
proof (induction es arbitrary: s ds)
  case Nil
  then show ?case by simp
next
  case (Cons e es)
  show ?case
  proof (cases "Enabled e")
    case False
    then show ?thesis
      using Cons.prems Cons.IH[of s ds] by (simp add: enabled_urls_def)
  next
    case True
    let ?t = "fst (startEndpoint c e s)"
    have fresh: "URL e \<notin> fst ` set (endpoints s)"
      using Cons.prems(2) True by (auto simp: enabled_urls_def)
    have rest: "distinct (enabled_urls es)" "URL e \<notin> set (enabled_urls es)"
      using Cons.prems(1) True by (auto simp: enabled_urls_def)
    have n: "endpoints ?t = endpoints s @ [(URL e, next_ptr s)]"
      by (simp add: update_fresh[OF fresh])
    have "\<forall>x \<in> set (endpoints s). heap ?t (snd x) = heap s (snd x)"
      using Cons.prems(4) by auto
    with Cons.prems(3) have old: "list_all2 (matches ?t) (endpoints s) ds"
      by (rule list_all2_matches_frame)
    have 1: "set (enabled_urls es) \<inter> fst ` set (endpoints ?t) = {}"
      using Cons.prems(2) rest(2) True by (auto simp: update_fresh[OF fresh] enabled_urls_def)
    have 2: "list_all2 (matches ?t) (endpoints ?t) (ds @ [e])"
      unfolding n using old by (intro list_all2_appendI) (simp_all add: matches_def)
    have 3: "\<forall>x \<in> set (endpoints ?t). snd x < next_ptr ?t"
      unfolding n using Cons.prems(4) by (auto simp: less_Suc_eq)
    from Cons.IH[OF rest(1) 1 2 3] show ?thesis
      using True by simp
  qed
qed

lemma Start_eq:
  "Start c s = (mu_Unlock (go (Go_watchConfig c)
      (wg_Add 1 (fst (Start_endpoints c (Endpoints (config s)) (mu_Lock s))))), None)"
  using Start_endpoints_nil[of c "Endpoints (config s)" "mu_Lock s"]
  by (cases "Start_endpoints c (Endpoints (config s)) (mu_Lock s)") (simp add: Start_def)

lemma Start_establishes_in_step:
  assumes "endpoints s = []" and "distinct (enabled_urls (Endpoints (config s)))"
  shows "in_step (fst (Start c s)) (Endpoints (config s))"
proof -
  let ?r = "fst (Start_endpoints c (Endpoints (config s)) (mu_Lock s))"
  have m: "list_all2 (matches ?r) (endpoints ?r) ([] @ filter Enabled (Endpoints (config s)))"
    using assms by (intro Start_endpoints_builds) simp_all
  then have k: "map fst (endpoints ?r) = enabled_urls (Endpoints (config s))"
    using list_all2_matches_keys[of ?r "endpoints ?r"] by (simp add: enabled_urls_def)
  let ?s' = "fst (Start c s)"
  have e: "endpoints ?s' = endpoints ?r" "heap ?s' = heap ?r"
    by (simp_all add: Start_eq go_def wg_Add_def)
  show ?thesis
    unfolding in_step_def e(1) matches_heap[OF e(2)] using m k assms(2) by simp
qed

lemma Start_config: "config (fst (Start c s)) = config s"
proof -
  have "config (fst (Start_endpoints c es t)) = config t" for es t
    by (induction es arbitrary: t) simp_all
  then show ?thesis by (simp add: Start_eq go_def wg_Add_def)
qed

lemma ex_started_eq: "ex_started es = fst (Start ex_root (ex_fresh es))"
  by (simp add: ex_started_def ex_fresh_def ex_root_def context_WithCancel_def NewService_def)

lemma ex_twin_fields:
  "URL ex_A_twin = ''https://a.example''" "Name ex_A_twin = ''A2''"
  "Interval ex_A_twin = 60000000000" "Timeout ex_A_twin = 10000000000"
  "Tags ex_A_twin = [''production'']" "Enabled ex_A_twin"
  by (simp_all add: ex_A_twin_def ex_A_def)

lemma ex_started_twins:
  "endpoints (ex_started [ex_A, ex_A_twin]) = [(''https://a.example'', 2)]"
  "config (ex_started [ex_A, ex_A_twin]) = Monitor (ex_config [ex_A, ex_A_twin])"
  "heap (ex_started [ex_A, ex_A_twin]) 2 = \<lparr> endpoint = ex_A_twin, cancel = 2, lastCheck = 0 \<rparr>"
  "next_ptr (ex_started [ex_A, ex_A_twin]) = 3" "next_scope (ex_started [ex_A, ex_A_twin]) = 3"
  "goroutines (ex_started [ex_A, ex_A_twin]) =
     [(Go_monitorEndpoint (WithCancel 1 ex_root) 1, Created),
      (Go_monitorEndpoint (WithCancel 2 ex_root) 2, Created), (Go_watchConfig ex_root, Created)]"
  "cancelled (ex_started [ex_A, ex_A_twin]) = {}"
  by (simp_all add: ex_started_def ex_config_def ex_root_def NewService_def context_WithCancel_def
      Start_def mu_Lock_def mu_Unlock_def go_def wg_Add_def ex_fields ex_twin_fields eval_nat_numeral)

section \<open>The invariant of the running service\<close>

lemma set_update_distinct:
  "distinct (map fst al) \<Longrightarrow> set (AList.update k v al) = insert (k, v) {x \<in> set al. fst x \<noteq> k}"
  by (induction al) (auto simp: image_iff)

lemma distinct_snd_update:
  "distinct (map fst al) \<Longrightarrow> distinct (map snd al) \<Longrightarrow> v \<notin> snd ` set al \<Longrightarrow>
     distinct (map snd (AList.update k v al))"
  by (induction al) (auto simp: set_update_distinct image_iff)

text \<open>The operations that touch none of the fields the invariant reads.\<close>

lemma serving_frame:
  assumes "endpoints t = endpoints s" "\<And>p. cancel (heap t p) = cancel (heap s p)"
    "next_ptr t = next_ptr s" "next_scope t = next_scope s" "cancelled t = cancelled s"
    "goroutines t = goroutines s"
  shows "addressed t = addressed s" "scoped root t = scoped root s" "looped root t = looped root s"
    "entries_live U t = entries_live U s"
proof -
  have r: "rooted root t = rooted root s"
  proof (intro ext)
    fix r show "rooted root t r = rooted root s r"
      using assms(2) by (cases r) simp_all
  qed
  show "addressed t = addressed s" "scoped root t = scoped root s" "looped root t = looped root s"
    "entries_live U t = entries_live U s"
    using assms by (simp_all add: addressed_def scoped_def looped_def entries_live_def loop_ptrs_def r)
qed

lemma addressed_startEndpoint:
  assumes "addressed s"
  shows "addressed (fst (startEndpoint c e s))"
proof -
  from assms have a: "0 < next_ptr s" "distinct (map fst (endpoints s))"
    "distinct (map snd (endpoints s))" "\<forall>x \<in> set (endpoints s). 0 < snd x \<and> snd x < next_ptr s"
    unfolding addressed_def by blast+
  have "next_ptr s \<notin> snd ` set (endpoints s)"
    using a(4) by fastforce
  then have 1: "distinct (map snd (AList.update (URL e) (next_ptr s) (endpoints s)))"
    using a(2,3) by (intro distinct_snd_update)
  have 2: "distinct (map fst (AList.update (URL e) (next_ptr s) (endpoints s)))"
    using a(2) by (simp add: distinct_update)
  have 3: "\<forall>x \<in> set (AList.update (URL e) (next_ptr s) (endpoints s)).
      0 < snd x \<and> snd x < Suc (next_ptr s)"
    using a(1,4) by (auto simp: set_update_distinct[OF a(2)] less_Suc_eq)
  show ?thesis
    unfolding addressed_def using 1 2 3 by simp
qed

lemma scoped_startEndpoint:
  assumes "scoped root s"
  shows "scoped root (fst (startEndpoint c e s))"
proof -
  from assms have a:
    "\<And>p q. 0 < p \<Longrightarrow> p < next_ptr s \<Longrightarrow> 0 < q \<Longrightarrow> q < next_ptr s \<Longrightarrow>
        cancel (heap s p) = cancel (heap s q) \<Longrightarrow> p = q"
    "\<And>p. 0 < p \<Longrightarrow> p < next_ptr s \<Longrightarrow> cancel (heap s p) < next_scope s"
    "\<And>p. 0 < p \<Longrightarrow> p < next_ptr s \<Longrightarrow> cancel (heap s p) \<notin> scopes root"
    "\<And>i. i \<in> cancelled s \<Longrightarrow> i < next_scope s"
    "\<And>i. i \<in> scopes root \<Longrightarrow> i < next_scope s"
    "\<And>i. i \<in> scopes root \<Longrightarrow> i \<notin> cancelled s"
    unfolding scoped_def by blast+
  let ?t = "fst (startEndpoint c e s)"
  have h: "\<And>p. cancel (heap ?t p) = (if p = next_ptr s then next_scope s else cancel (heap s p))"
    by simp
  have 1: "\<forall>p q. 0 < p \<and> p < next_ptr ?t \<and> 0 < q \<and> q < next_ptr ?t \<and>
            cancel (heap ?t p) = cancel (heap ?t q) \<longrightarrow> p = q"
  proof (intro allI impI, elim conjE)
    fix p q assume pq: "0 < p" "p < next_ptr ?t" "0 < q" "q < next_ptr ?t"
      "cancel (heap ?t p) = cancel (heap ?t q)"
    show "p = q"
    proof (cases "p = next_ptr s")
      case True
      then show ?thesis
        using pq a(2)[of q] by (cases "q = next_ptr s") (auto simp: less_Suc_eq)
    next
      case False
      then show ?thesis
        using pq a(2)[of p] a(1)[of p q] by (cases "q = next_ptr s") (auto simp: less_Suc_eq)
    qed
  qed
  have 2: "\<forall>p. 0 < p \<and> p < next_ptr ?t \<longrightarrow>
            cancel (heap ?t p) < next_scope ?t \<and> cancel (heap ?t p) \<notin> scopes root"
  proof (intro allI impI, elim conjE)
    fix p assume p: "0 < p" "p < next_ptr ?t"
    show "cancel (heap ?t p) < next_scope ?t \<and> cancel (heap ?t p) \<notin> scopes root"
    proof (cases "p = next_ptr s")
      case True
      then show ?thesis using a(5)[of "next_scope s"] by auto
    next
      case False
      then show ?thesis using p a(2)[of p] a(3)[of p] by (auto simp: less_Suc_eq)
    qed
  qed
  have 3: "\<forall>i \<in> cancelled ?t. i < next_scope ?t"
    using a(4) by (auto simp: less_Suc_eq)
  have 4: "\<forall>i \<in> scopes root. i < next_scope ?t \<and> i \<notin> cancelled ?t"
    using a(5,6) by (auto simp: less_Suc_eq)
  show ?thesis
    unfolding scoped_def using 1 2 3 4 by blast
qed

lemma loop_ptrs_bound:
  assumes "loop_ptrs s = [1..<next_ptr s]" and "g \<in> set (goroutines s)"
    and "fst g = Go_monitorEndpoint c p"
  shows "0 < p \<and> p < next_ptr s"
proof -
  have "p \<in> set (loop_ptrs s)"
    using assms(2,3) unfolding loop_ptrs_def by (auto intro!: bexI[of _ g])
  then show ?thesis by (simp add: assms(1))
qed

lemma rooted_frame:
  assumes "rooted root s r" and "\<And>c p. r = Go_monitorEndpoint c p \<Longrightarrow> cancel (heap t p) = cancel (heap s p)"
  shows "rooted root t r"
  using assms by (cases r) simp_all

lemma looped_startEndpoint:
  assumes "looped root s" and "0 < next_ptr s" and "c = Background \<or> c = root"
  shows "looped root (fst (startEndpoint c e s))"
proof -
  from assms(1) have a: "loop_ptrs s = [1..<next_ptr s]"
    "\<And>g. g \<in> set (goroutines s) \<Longrightarrow> rooted root s (fst g)"
    "\<And>g. g \<in> set (goroutines s) \<Longrightarrow> snd g = Exited \<Longrightarrow>
        fst g = Go_Wait \<or> ctx_Done (cancelled s) (routine_ctx (fst g))"
    unfolding looped_def by blast+
  let ?t = "fst (startEndpoint c e s)"
  have 1: "loop_ptrs ?t = [1..<next_ptr ?t]"
    using a(1) assms(2) by (simp add: loop_ptrs_def)
  have 2: "\<forall>g \<in> set (goroutines ?t). rooted root ?t (fst g)"
  proof
    fix g assume "g \<in> set (goroutines ?t)"
    then consider "g \<in> set (goroutines s)"
      | "g = (Go_monitorEndpoint (WithCancel (next_scope s) c) (next_ptr s), Created)"
      by auto
    then show "rooted root ?t (fst g)"
    proof cases
      case 1
      show ?thesis
      proof (rule rooted_frame[OF a(2)[OF 1]])
        fix c' p assume "fst g = Go_monitorEndpoint c' p"
        then have "p < next_ptr s" using loop_ptrs_bound[OF a(1) 1] by blast
        then show "cancel (heap ?t p) = cancel (heap s p)" by simp
      qed
    next
      case 2
      then show ?thesis using assms(3) by auto
    qed
  qed
  have 3: "\<forall>g \<in> set (goroutines ?t). snd g = Exited \<longrightarrow>
        fst g = Go_Wait \<or> ctx_Done (cancelled ?t) (routine_ctx (fst g))"
    using a(3) by auto
  show ?thesis unfolding looped_def using 1 2 3 by blast
qed

lemma entries_live_startEndpoint:
  assumes "entries_live U s" and "addressed s" and "scoped root s"
  shows "entries_live (U - {URL e}) (fst (startEndpoint c e s))"
proof -
  let ?t = "fst (startEndpoint c e s)"
  have d: "distinct (map fst (endpoints s))" and b: "\<forall>x \<in> set (endpoints s). snd x < next_ptr s"
    using assms(2) unfolding addressed_def by blast+
  have f: "next_scope s \<notin> cancelled s"
    using assms(3) unfolding scoped_def by blast
  show ?thesis
    unfolding entries_live_def
  proof (intro ballI impI)
    fix x assume x: "x \<in> set (endpoints ?t)" "fst x \<notin> U - {URL e}"
    then consider "x = (URL e, next_ptr s)" | "x \<in> set (endpoints s)" "fst x \<noteq> URL e"
      by (auto simp: set_update_distinct[OF d])
    then show "cancel (heap ?t (snd x)) \<notin> cancelled ?t"
    proof cases
      case 1
      then show ?thesis using f by simp
    next
      case 2
      then have "snd x \<noteq> next_ptr s" using b by auto
      moreover have "cancel (heap s (snd x)) \<notin> cancelled s"
        using assms(1) 2 x(2) unfolding entries_live_def by blast
      ultimately show ?thesis by simp
    qed
  qed
qed

lemma serving_but_startEndpoint:
  assumes "serving_but U root s" and "c = Background \<or> c = root"
  shows "serving_but (U - {URL e}) root (fst (startEndpoint c e s))"
proof -
  from assms(1) have ad: "addressed s" and sc: "scoped root s" and lo: "looped root s"
    and li: "entries_live U s"
    unfolding serving_but_def by blast+
  have n: "0 < next_ptr s" using ad unfolding addressed_def by blast
  show ?thesis
    unfolding serving_but_def
    using addressed_startEndpoint[OF ad] scoped_startEndpoint[OF sc]
      looped_startEndpoint[OF lo n assms(2)] entries_live_startEndpoint[OF li ad sc]
    by blast
qed

text \<open>Cancelling the scope of the map's monitor for a URL.\<close>

lemma ctx_Done_insert: "ctx_Done X c \<Longrightarrow> ctx_Done (insert i X) c"
  by (induction c) auto

lemma serving_but_call_cancel:
  assumes "serving_but U root s" and "(u, m) \<in> set (endpoints s)"
  shows "serving_but (insert u U) root (call_cancel (cancel (heap s m)) s)"
proof -
  let ?t = "call_cancel (cancel (heap s m)) s"
  from assms(1) have ad: "addressed s" and sc: "scoped root s" and lo: "looped root s"
    and li: "entries_live U s"
    unfolding serving_but_def by blast+
  have m: "0 < m" "m < next_ptr s"
    using ad assms(2) unfolding addressed_def by fastforce+
  have 1: "addressed ?t"
    using ad by (simp add: addressed_def)
  have 2: "scoped root ?t"
    using sc m unfolding scoped_def by auto
  have r: "rooted root ?t = rooted root s"
  proof (intro ext)
    fix r show "rooted root ?t r = rooted root s r" by (cases r) simp_all
  qed
  have 3: "looped root ?t"
    using lo unfolding looped_def by (auto simp: loop_ptrs_def r ctx_Done_insert)
  have 4: "entries_live (insert u U) ?t"
    unfolding entries_live_def
  proof (intro ballI impI)
    fix x assume x: "x \<in> set (endpoints ?t)" "fst x \<notin> insert u U"
    then have xs: "x \<in> set (endpoints s)" by simp
    have "snd x \<noteq> m"
    proof
      assume "snd x = m"
      then have "x = (u, m)"
        using ad xs assms(2) unfolding addressed_def
        by (metis distinct_map inj_on_def prod.collapse snd_conv)
      then show False using x(2) by simp
    qed
    moreover have "0 < snd x" "snd x < next_ptr s"
      using ad xs unfolding addressed_def by blast+
    ultimately have "cancel (heap s (snd x)) \<noteq> cancel (heap s m)"
      using sc m unfolding scoped_def by blast
    moreover have "cancel (heap s (snd x)) \<notin> cancelled s"
      using li xs x(2) unfolding entries_live_def by blast
    ultimately show "cancel (heap ?t (snd x)) \<notin> cancelled ?t" by simp
  qed
  show ?thesis unfolding serving_but_def using 1 2 3 4 by blast
qed

lemma serving_but_frame:
  assumes "endpoints t = endpoints s" "\<And>p. cancel (heap t p) = cancel (heap s p)"
    "next_ptr t = next_ptr s" "next_scope t = next_scope s" "cancelled t = cancelled s"
    "goroutines t = goroutines s"
  shows "serving_but U root t = serving_but U root s"
  unfolding serving_but_def using serving_frame[OF assms] by simp

lemma reload_step_serving:
  assumes "serving_but {} root s" and "distinct (map fst new)" and "set new \<subseteq> set (endpoints s)"
  shows "serving_but {} root (snd (reload_step e (new, s)))
       \<and> distinct (map fst (fst (reload_step e (new, s))))
       \<and> set (fst (reload_step e (new, s))) \<subseteq> set (endpoints (snd (reload_step e (new, s))))
       \<and> fst ` set (fst (reload_step e (new, s))) =
           fst ` set new \<union> (if Enabled e then {URL e} else {})"
proof -
  have d: "distinct (map fst (endpoints s))"
    using assms(1) unfolding serving_but_def addressed_def by blast
  show ?thesis
  proof (cases e new s rule: reload_step_cases)
    case disabled
    then show ?thesis using assms by simp
  next
    case (same m)
    have "(URL e, m) \<in> set (endpoints s)"
      using same(2) by (rule map_of_SomeD)
    then have "set (AList.update (URL e) m new) \<subseteq> set (endpoints s)"
      using assms(3) by (auto simp: set_update_distinct[OF assms(2)])
    then show ?thesis
      using assms same by (simp add: distinct_update dom_update)
  next
    case (changed m)
    let ?l = "logger_Printf (Updating_configuration (URL e)) s"
    have l: "serving_but {} root ?l"
      using assms(1) by (simp add: serving_but_frame[of ?l s])
    have "(URL e, m) \<in> set (endpoints ?l)"
      using changed(2) by (simp add: map_of_SomeD)
    from serving_but_call_cancel[OF l this]
    have "serving_but {URL e} root (call_cancel (cancel (heap s m)) ?l)" by simp
    from serving_but_startEndpoint[OF this, of Background e]
    have 1: "serving_but {} root (snd (reload_step e (new, s)))"
      by (simp add: changed(4))
    have 2: "set (AList.update (URL e) (next_ptr s) new) \<subseteq>
        set (AList.update (URL e) (next_ptr s) (endpoints s))"
      using assms(3) by (auto simp: set_update_distinct[OF assms(2)] set_update_distinct[OF d])
    show ?thesis
      using 1 2 assms(2) changed(1) by (simp add: changed(4) distinct_update dom_update)
  next
    case new
    let ?l = "logger_Printf (Adding_new_endpoint (URL e)) s"
    have l: "serving_but {} root ?l"
      using assms(1) by (simp add: serving_but_frame[of ?l s])
    from serving_but_startEndpoint[OF l, of Background e]
    have 1: "serving_but {} root (snd (reload_step e (new, s)))"
      by (simp add: new(3))
    have 2: "set (AList.update (URL e) (next_ptr s) new) \<subseteq>
        set (AList.update (URL e) (next_ptr s) (endpoints s))"
      using assms(3) by (auto simp: set_update_distinct[OF assms(2)] set_update_distinct[OF d])
    show ?thesis
      using 1 2 assms(2) new(1) by (simp add: new(3) distinct_update dom_update)
  qed
qed

lemma fold_reload_step_serving:
  assumes "serving_but {} root s" and "distinct (map fst new)" and "set new \<subseteq> set (endpoints s)"
  shows "serving_but {} root (snd (fold reload_step es (new, s)))
       \<and> distinct (map fst (fst (fold reload_step es (new, s))))
       \<and> set (fst (fold reload_step es (new, s))) \<subseteq> set (endpoints (snd (fold reload_step es (new, s))))
       \<and> fst ` set (fst (fold reload_step es (new, s))) = fst ` set new \<union> set (enabled_urls es)"
  using assms
proof (induction es arbitrary: new s)
  case Nil
  then show ?case by (simp add: enabled_urls_def)
next
  case (Cons e es)
  let ?n = "fst (reload_step e (new, s))" and ?t = "snd (reload_step e (new, s))"
  note st = reload_step_serving[OF Cons.prems, of e]
  from st have a: "serving_but {} root ?t" "distinct (map fst ?n)" "set ?n \<subseteq> set (endpoints ?t)"
    and k: "fst ` set ?n = fst ` set new \<union> (if Enabled e then {URL e} else {})"
    by blast+
  note ih = Cons.IH[OF a]
  have f: "fold reload_step (e # es) (new, s) = fold reload_step es (?n, ?t)"
    by simp
  have "fst ` set ?n \<union> set (enabled_urls es) = fst ` set new \<union> set (enabled_urls (e # es))"
    unfolding k by (auto simp: enabled_urls_def)
  then show ?case
    unfolding f using ih by simp
qed

lemma map_index_snd: "snd (map_index al k) \<longleftrightarrow> k \<in> fst ` set al"
proof (cases "map_of al k")
  case None
  then have "k \<notin> fst ` set al" by (simp add: map_of_eq_None_iff)
  then show ?thesis using None by (simp add: map_index_def)
next
  case (Some p)
  then have "(k, p) \<in> set al" by (rule map_of_SomeD)
  then have "k \<in> fst ` set al" by force
  then show ?thesis using Some by (simp add: map_index_def)
qed

lemma set_removed: "set (removed es new) = {y \<in> set es. fst y \<notin> fst ` set new}"
  by (auto simp: removed_def map_index_snd)

text \<open>
  Go does not specify the order in which \<^verbatim>\<open>range\<close> visits a map. The two loops that
  range over \<^verbatim>\<open>s.endpoints\<close> leave the same state for every order, up to the order
  of the lines printed and of the calls recorded.
\<close>

lemma range_order:
  assumes "set es' = set es"
  shows "cancelled (cancel_endpoints es' s) = cancelled (cancel_endpoints es s)"
    and "cancelled (remove_endpoints es' new s) = cancelled (remove_endpoints es new s)"
    and "set (history (cancel_endpoints es' s)) = set (history (cancel_endpoints es s))"
    and "set (logger (remove_endpoints es' new s)) = set (logger (remove_endpoints es new s))"
    and "(cancel_endpoints es' s) \<lparr> history := h \<rparr> = (cancel_endpoints es s) \<lparr> history := h \<rparr>"
    and "(remove_endpoints es' new s) \<lparr> history := h, logger := l \<rparr> =
         (remove_endpoints es new s) \<lparr> history := h, logger := l \<rparr>"
  using assms by (simp_all add: cancel_endpoints_eq remove_endpoints_eq set_removed)

lemma distinct_snd_subset:
  assumes "distinct (map fst new)" and "set new \<subseteq> set al" and "distinct (map snd al)"
  shows "distinct (map snd new)"
proof -
  have "distinct new" using assms(1) by (simp add: distinct_map)
  moreover have "inj_on snd (set al)" using assms(3) by (simp add: distinct_map)
  then have "inj_on snd (set new)" using assms(2) by (rule inj_on_subset)
  ultimately show ?thesis by (simp add: distinct_map)
qed

lemma serving_after_removal:
  assumes "serving_but {} root s" and "distinct (map fst new)" and "set new \<subseteq> set (endpoints s)"
  shows "serving_but {} root ((remove_endpoints (endpoints s) new s) \<lparr> endpoints := new, config := c \<rparr>)"
proof -
  let ?R = "scope_of s ` set (removed (endpoints s) new)"
  let ?t = "(remove_endpoints (endpoints s) new s) \<lparr> endpoints := new, config := c \<rparr>"
  from assms(1) have ad: "addressed s" and sc: "scoped root s" and lo: "looped root s"
    and li: "entries_live {} s"
    unfolding serving_but_def by blast+
  have f: "endpoints ?t = new" "heap ?t = heap s" "next_ptr ?t = next_ptr s"
    "next_scope ?t = next_scope s" "cancelled ?t = cancelled s \<union> ?R" "goroutines ?t = goroutines s"
    by (simp_all add: remove_endpoints_eq)
  have b: "\<And>x. x \<in> set (endpoints s) \<Longrightarrow> 0 < snd x \<and> snd x < next_ptr s"
    using ad unfolding addressed_def by blast
  have R: "\<And>i. i \<in> ?R \<Longrightarrow> \<exists>y \<in> set (endpoints s). fst y \<notin> fst ` set new \<and> i = cancel (heap s (snd y))"
    by (auto simp: set_removed scope_of_def)
  have 1: "addressed ?t"
    unfolding addressed_def f
    using ad assms(2,3) b distinct_snd_subset[OF assms(2,3)]
    unfolding addressed_def by blast
  have 2: "scoped root ?t"
    unfolding scoped_def f
  proof (intro conjI)
    show "\<forall>p q. 0 < p \<and> p < next_ptr s \<and> 0 < q \<and> q < next_ptr s \<and>
        cancel (heap s p) = cancel (heap s q) \<longrightarrow> p = q"
      using sc unfolding scoped_def by blast
    show "\<forall>p. 0 < p \<and> p < next_ptr s \<longrightarrow>
        cancel (heap s p) < next_scope s \<and> cancel (heap s p) \<notin> scopes root"
      using sc unfolding scoped_def by blast
    show "\<forall>i \<in> cancelled s \<union> ?R. i < next_scope s"
    proof
      fix i assume "i \<in> cancelled s \<union> ?R"
      then consider "i \<in> cancelled s" | "i \<in> ?R" by blast
      then show "i < next_scope s"
      proof cases
        case 1
        then show ?thesis using sc unfolding scoped_def by blast
      next
        case 2
        from R[OF this] obtain y where "y \<in> set (endpoints s)" "i = cancel (heap s (snd y))"
          by blast
        then show ?thesis using b[of y] sc unfolding scoped_def by blast
      qed
    qed
    show "\<forall>i \<in> scopes root. i < next_scope s \<and> i \<notin> cancelled s \<union> ?R"
    proof
      fix i assume i: "i \<in> scopes root"
      have "i \<notin> ?R"
      proof
        assume "i \<in> ?R"
        from R[OF this] obtain y where "y \<in> set (endpoints s)" "i = cancel (heap s (snd y))"
          by blast
        then show False using b[of y] sc i unfolding scoped_def by blast
      qed
      then show "i < next_scope s \<and> i \<notin> cancelled s \<union> ?R"
        using sc i unfolding scoped_def by blast
    qed
  qed
  have r: "rooted root ?t = rooted root s"
  proof (intro ext)
    fix r show "rooted root ?t r = rooted root s r" by (cases r) (simp_all add: f)
  qed
  have 3: "looped root ?t"
    using lo ctx_Done_mono[of "cancelled s" "cancelled s \<union> ?R"]
    unfolding looped_def f loop_ptrs_def r by blast
  have 4: "entries_live {} ?t"
    unfolding entries_live_def f
  proof (intro ballI impI)
    fix x assume x: "x \<in> set new"
    then have xs: "x \<in> set (endpoints s)" using assms(3) by blast
    have "cancel (heap s (snd x)) \<notin> ?R"
    proof
      assume "cancel (heap s (snd x)) \<in> ?R"
      from R[OF this] obtain y where y: "y \<in> set (endpoints s)" "fst y \<notin> fst ` set new"
        "cancel (heap s (snd x)) = cancel (heap s (snd y))"
        by blast
      have "snd x = snd y"
        using sc b[OF xs] b[OF y(1)] y(3) unfolding scoped_def by blast
      then have "x = y"
        using ad xs y(1) unfolding addressed_def
        by (metis distinct_map inj_on_def)
      then show False using x y(2) by force
    qed
    moreover have "cancel (heap s (snd x)) \<notin> cancelled s"
      using li xs unfolding entries_live_def by blast
    ultimately show "cancel (heap s (snd x)) \<notin> cancelled s \<union> ?R" by blast
  qed
  show ?thesis unfolding serving_but_def using 1 2 3 4 by blast
qed

lemma reloadConfig_serving:
  assumes "serving_but {} root s" and "map_reflects_config s"
  shows "serving_but {} root (fst (reloadConfig r s)) \<and> map_reflects_config (fst (reloadConfig r s))"
proof (cases r)
  case (Inl err)
  have "serving_but {} root (logger_Printf Reloading_configuration s)"
    using assms(1) by (simp add: serving_but_frame[of "logger_Printf Reloading_configuration s" s])
  then show ?thesis
    using assms(2) by (simp add: Inl reloadConfig_def map_reflects_config_def)
next
  case (Inr cfg)
  let ?L = "mu_Lock (logger_Printf Reloading_configuration s)"
  let ?r = "fold reload_step (Endpoints (Monitor cfg)) ([], ?L)"
  have "serving_but {} root ?L"
    using assms(1) by (simp add: serving_but_frame[of ?L s])
  from fold_reload_step_serving[OF this, of "[]" "Endpoints (Monitor cfg)"]
  have a: "serving_but {} root (snd ?r)" "distinct (map fst (fst ?r))"
    "set (fst ?r) \<subseteq> set (endpoints (snd ?r))"
    and k: "fst ` set (fst ?r) = set (enabled_urls (Endpoints (Monitor cfg)))"
    by simp_all
  let ?t = "(remove_endpoints (endpoints (snd ?r)) (fst ?r) (snd ?r))
      \<lparr> endpoints := fst ?r, config := Monitor cfg \<rparr>"
  have e: "fst (reloadConfig r s) = mu_Unlock ?t"
    by (simp add: Inr reloadConfig_Inr split_beta)
  have "serving_but {} root ?t"
    using a by (rule serving_after_removal)
  then have 1: "serving_but {} root (mu_Unlock ?t)"
    by (simp add: serving_but_frame[of "mu_Unlock ?t" ?t])
  have 2: "map_reflects_config (mu_Unlock ?t)"
    using k by (simp add: map_reflects_config_def)
  show ?thesis unfolding e using 1 2 by blast
qed

lemma wg_fields [simp]:
  "endpoints (wg_Done s) = endpoints s" "heap (wg_Done s) = heap s"
  "next_ptr (wg_Done s) = next_ptr s" "next_scope (wg_Done s) = next_scope s"
  "cancelled (wg_Done s) = cancelled s" "goroutines (wg_Done s) = goroutines s"
  "config (wg_Done s) = config s" "panicked (wg_Done s) = panicked s"
  "shutdownWg (wg_Done s) = shutdownWg s - 1"
  "endpoints (wg_Add n s) = endpoints s" "heap (wg_Add n s) = heap s"
  "next_ptr (wg_Add n s) = next_ptr s" "next_scope (wg_Add n s) = next_scope s"
  "cancelled (wg_Add n s) = cancelled s" "goroutines (wg_Add n s) = goroutines s"
  "config (wg_Add n s) = config s" "panicked (wg_Add n s) = panicked s"
  "shutdownWg (wg_Add n s) = shutdownWg s + n"
  by (simp_all add: wg_Done_def wg_Add_def)

lemma map_fst_set_phase:
  "map fst (goroutines (set_phase i ph s)) = map fst (goroutines s)"
  by (cases "i < length (goroutines s)")
     (simp_all add: map_update list_update_same_conv list_update_beyond)

lemma goroutine_at_frame [simp]:
  "goroutine_at (wg_Done s) = goroutine_at s"
  "goroutine_at (logger_Printf l s) = goroutine_at s"
  "goroutine_at (s \<lparr> done_closed := b \<rparr>) = goroutine_at s"
  by (simp_all add: goroutine_at_def fun_eq_iff)

lemma loop_ptrs_alt: "loop_ptrs s = concat (map routine_ptrs (map fst (goroutines s)))"
  by (simp add: loop_ptrs_def comp_def)

lemma serving_but_set_phase:
  assumes "serving_but U root s"
    and "ph = Exited \<longrightarrow> (\<exists>r. goroutine_at s i = Some (r, Running) \<and>
          (r = Go_Wait \<or> ctx_Done (cancelled s) (routine_ctx r)))"
  shows "serving_but U root (set_phase i ph s)"
proof -
  let ?t = "set_phase i ph s"
  from assms(1) have ad: "addressed s" and sc: "scoped root s" and lo: "looped root s"
    and li: "entries_live U s"
    unfolding serving_but_def by blast+
  have 1: "addressed ?t" using ad by (simp add: addressed_def)
  have 2: "scoped root ?t" using sc by (simp add: scoped_def)
  have 4: "entries_live U ?t" using li by (simp add: entries_live_def)
  have r: "rooted root ?t = rooted root s"
  proof (intro ext)
    fix r show "rooted root ?t r = rooted root s r" by (cases r) simp_all
  qed
  have p: "loop_ptrs ?t = loop_ptrs s"
    unfolding loop_ptrs_alt map_fst_set_phase ..
  have m: "\<And>g. g \<in> set (goroutines ?t) \<Longrightarrow>
      g \<in> set (goroutines s) \<or> (i < length (goroutines s) \<and> g = (fst (goroutines s ! i), ph))"
    using set_update_subset_insert[of "goroutines s" i "(fst (goroutines s ! i), ph)"]
    by (cases "i < length (goroutines s)") (auto simp: list_update_beyond)
  have 3: "looped root ?t"
    unfolding looped_def p r
  proof (intro conjI ballI impI)
    show "loop_ptrs s = [1..<next_ptr ?t]" using lo unfolding looped_def by simp
  next
    fix g assume "g \<in> set (goroutines ?t)"
    from m[OF this] show "rooted root s (fst g)"
      using lo unfolding looped_def by (auto simp: nth_mem)
  next
    fix g assume g: "g \<in> set (goroutines ?t)" "snd g = Exited"
    from m[OF g(1)] show "fst g = Go_Wait \<or> ctx_Done (cancelled ?t) (routine_ctx (fst g))"
    proof
      assume "g \<in> set (goroutines s)"
      then show ?thesis using lo g(2) unfolding looped_def by simp
    next
      assume h: "i < length (goroutines s) \<and> g = (fst (goroutines s ! i), ph)"
      then have "ph = Exited" using g(2) by simp
      with assms(2) obtain r where "goroutine_at s i = Some (r, Running)"
        "r = Go_Wait \<or> ctx_Done (cancelled s) (routine_ctx r)" by blast
      then show ?thesis using h by (simp add: goroutine_at_def)
    qed
  qed
  show ?thesis unfolding serving_but_def using 1 2 3 4 by blast
qed

lemma map_reflects_config_frame:
  "endpoints t = endpoints s \<Longrightarrow> config t = config s \<Longrightarrow>
     map_reflects_config t = map_reflects_config s"
  by (simp add: map_reflects_config_def)

lemma serving_step:
  assumes "serving root s"
  shows "serving root (step a s)"
proof (cases "panicked s")
  case True
  then show ?thesis using assms by (simp add: step_def)
next
  case False
  from assms have sb: "serving_but {} root s" and mr: "map_reflects_config s"
    unfolding serving_def by blast+
  show ?thesis
  proof (cases a)
    case (Init i)
    show ?thesis
    proof (cases "goroutine_at s i")
      case None
      then show ?thesis using assms False by (simp add: step_def Init)
    next
      case (Some g)
      obtain r ph where g: "g = (r, ph)" by (cases g)
      have tick: "serving root (time_NewTicker i d s)" for d
      proof (cases "d \<le> 0")
        case True
        have "serving_but {} root (s \<lparr> panicked := True \<rparr>)"
          using sb by (simp add: serving_but_frame[of "s \<lparr> panicked := True \<rparr>" s])
        then show ?thesis
          using mr True by (simp add: time_NewTicker_def serving_def map_reflects_config_def)
      next
        case False
        have "serving_but {} root (set_phase i Running s)"
          using sb by (rule serving_but_set_phase) simp
        then show ?thesis
          using mr False by (simp add: time_NewTicker_def serving_def map_reflects_config_def)
      qed
      have ph: "serving root (set_phase i Running s)"
        using serving_but_set_phase[OF sb, of Running i] mr
        by (simp add: serving_def map_reflects_config_def)
      show ?thesis
        using assms False tick ph
        by (cases r; cases ph) (simp_all add: step_def Init Some g)
    qed
  next
    case (Poll_tick i pr saved)
    have "serving root (monitorEndpoint_tick m pr saved s)" for m
      using sb mr
      by (simp add: serving_def monitorEndpoint_tick_fields map_reflects_config_def
          serving_but_frame[of "monitorEndpoint_tick m pr saved s" s])
    then show ?thesis
      using assms by (simp add: step_def Poll_tick split: option.splits routine.splits phase.splits)
  next
    case (Poll_done i)
    show ?thesis
    proof (cases "\<exists>c m. goroutine_at s i = Some (Go_monitorEndpoint c m, Running) \<and>
        ctx_Done (cancelled s) c")
      case True
      then obtain c m where g: "goroutine_at s i = Some (Go_monitorEndpoint c m, Running)"
        "ctx_Done (cancelled s) c" by blast
      let ?l = "wg_Done (logger_Printf (Stopping_monitoring (URL (endpoint (heap s m)))) s)"
      have l: "serving_but {} root ?l"
        using sb by (simp add: serving_but_frame[of ?l s])
      have "serving_but {} root (set_phase i Exited ?l)"
        using l g by (intro serving_but_set_phase) auto
      then have "serving root (monitorEndpoint_return i m s)"
        using mr by (simp add: serving_def monitorEndpoint_return_def map_reflects_config_def)
      then show ?thesis using g False by (simp add: step_def Poll_done)
    next
      case False
      then have "step a s = s"
        by (auto simp: step_def Poll_done split: option.splits routine.splits phase.splits)
      then show ?thesis using assms by simp
    qed
  next
    case (Watch_tick i r)
    have rc: "serving_but {} root (fst (reloadConfig r s))" "map_reflects_config (fst (reloadConfig r s))"
      using reloadConfig_serving[OF sb mr, of r] by blast+
    have "serving root (watchConfig_tick r s)"
    proof (cases "snd (reloadConfig r s)")
      case None
      then show ?thesis
        using rc by (cases "reloadConfig r s") (simp add: watchConfig_tick_def serving_def)
    next
      case (Some err)
      let ?t = "logger_Printf (Error_reloading_configuration err) (fst (reloadConfig r s))"
      have "serving_but {} root ?t"
        using rc(1) by (simp add: serving_but_frame[of ?t "fst (reloadConfig r s)"])
      moreover have "map_reflects_config ?t"
        using rc(2) by (simp add: map_reflects_config_def)
      ultimately show ?thesis
        using Some by (cases "reloadConfig r s") (simp add: watchConfig_tick_def serving_def)
    qed
    then show ?thesis
      using assms by (simp add: step_def Watch_tick split: option.splits routine.splits phase.splits)
  next
    case (Watch_done i)
    show ?thesis
    proof (cases "\<exists>c. goroutine_at s i = Some (Go_watchConfig c, Running) \<and> ctx_Done (cancelled s) c")
      case True
      then obtain c where g: "goroutine_at s i = Some (Go_watchConfig c, Running)"
        "ctx_Done (cancelled s) c" by blast
      have l: "serving_but {} root (wg_Done s)"
        using sb by (simp add: serving_but_frame[of "wg_Done s" s])
      have "serving_but {} root (set_phase i Exited (wg_Done s))"
        using l g by (intro serving_but_set_phase) auto
      then have "serving root (watchConfig_return i s)"
        using mr by (simp add: serving_def watchConfig_return_def map_reflects_config_def)
      then show ?thesis using g False by (simp add: step_def Watch_done)
    next
      case False
      then have "step a s = s"
        by (auto simp: step_def Watch_done split: option.splits routine.splits phase.splits)
      then show ?thesis using assms by simp
    qed
  next
    case (Wait_return i)
    show ?thesis
    proof (cases "goroutine_at s i = Some (Go_Wait, Running) \<and> shutdownWg s = 0")
      case True
      let ?l = "s \<lparr> done_closed := True \<rparr>"
      have l: "serving_but {} root ?l"
        using sb by (simp add: serving_but_frame[of ?l s])
      have "serving_but {} root (set_phase i Exited ?l)"
        using l True by (intro serving_but_set_phase) auto
      then have "serving root (set_phase i Exited ?l)"
        using mr by (simp add: serving_def map_reflects_config_def)
      then show ?thesis using True False by (simp add: step_def Wait_return)
    next
      case False
      then have "step a s = s"
        by (auto simp: step_def Wait_return split: option.splits routine.splits phase.splits)
      then show ?thesis using assms by simp
    qed
  qed
qed

lemma serving_run: "serving root s \<Longrightarrow> serving root (run acts s)"
  by (induction acts arbitrary: s) (simp_all add: serving_step)

lemma Start_endpoints_serving:
  assumes "serving_but {} root s"
  shows "serving_but {} root (fst (Start_endpoints root es s))
       \<and> fst ` set (endpoints (fst (Start_endpoints root es s))) =
           fst ` set (endpoints s) \<union> set (enabled_urls es)
       \<and> config (fst (Start_endpoints root es s)) = config s"
  using assms
proof (induction es arbitrary: s)
  case Nil
  then show ?case by (simp add: enabled_urls_def)
next
  case (Cons e es)
  show ?case
  proof (cases "Enabled e")
    case False
    then show ?thesis using Cons.IH[OF Cons.prems] by (simp add: enabled_urls_def)
  next
    case True
    have "serving_but {} root (fst (startEndpoint root e s))"
      using serving_but_startEndpoint[OF Cons.prems, of root e] by simp
    from Cons.IH[OF this] show ?thesis
      using True by (auto simp: enabled_urls_def dom_update)
  qed
qed

lemma serving_but_go_watchConfig:
  assumes "serving_but U root s"
  shows "serving_but U root (go (Go_watchConfig root) s)"
proof -
  let ?t = "go (Go_watchConfig root) s"
  have f: "endpoints ?t = endpoints s" "heap ?t = heap s" "next_ptr ?t = next_ptr s"
    "next_scope ?t = next_scope s" "cancelled ?t = cancelled s"
    "goroutines ?t = goroutines s @ [(Go_watchConfig root, Created)]"
    by (simp_all add: go_def)
  have r: "rooted root ?t = rooted root s"
  proof (intro ext)
    fix r show "rooted root ?t r = rooted root s r" by (cases r) (simp_all add: f)
  qed
  from assms show ?thesis
    unfolding serving_but_def addressed_def scoped_def looped_def entries_live_def loop_ptrs_def f r
    by auto
qed

lemma Start_serving:
  assumes "before_Start root s"
  shows "serving root (fst (Start root s))"
proof -
  from assms have b: "endpoints s = []" "goroutines s = []" "next_ptr s = 1"
    "\<forall>i \<in> cancelled s. i < next_scope s" "\<forall>i \<in> scopes root. i < next_scope s \<and> i \<notin> cancelled s"
    unfolding before_Start_def by blast+
  have "serving_but {} root (mu_Lock s)"
    using b unfolding serving_but_def addressed_def scoped_def looped_def entries_live_def
      loop_ptrs_def
    by simp
  from Start_endpoints_serving[OF this, of "Endpoints (config s)"]
  have a: "serving_but {} root (fst (Start_endpoints root (Endpoints (config s)) (mu_Lock s)))"
    and k: "fst ` set (endpoints (fst (Start_endpoints root (Endpoints (config s)) (mu_Lock s)))) =
        set (enabled_urls (Endpoints (config s)))"
    and c: "config (fst (Start_endpoints root (Endpoints (config s)) (mu_Lock s))) = config s"
    using b(1) by simp_all
  let ?e = "fst (Start_endpoints root (Endpoints (config s)) (mu_Lock s))"
  have "serving_but {} root (wg_Add 1 ?e)"
    using a by (simp add: serving_but_frame[of "wg_Add 1 ?e" ?e])
  then have "serving_but {} root (go (Go_watchConfig root) (wg_Add 1 ?e))"
    by (rule serving_but_go_watchConfig)
  then have 1: "serving_but {} root (fst (Start root s))"
    by (simp add: Start_eq
        serving_but_frame[of "mu_Unlock (go (Go_watchConfig root) (wg_Add 1 ?e))"
          "go (Go_watchConfig root) (wg_Add 1 ?e)"])
  have 2: "map_reflects_config (fst (Start root s))"
    using k c by (simp add: map_reflects_config_def Start_eq go_def)
  show ?thesis unfolding serving_def using 1 2 by blast
qed



lemma serving_but_allocated:
  assumes "serving_but U root s"
  shows "allocated s"
proof -
  from assms have ad: "addressed s" and sc: "scoped root s"
    unfolding serving_but_def by blast+
  have "\<And>u p. map_of (endpoints s) u = Some p \<Longrightarrow>
      p < next_ptr s \<and> cancel (heap s p) < next_scope s"
  proof -
    fix u p assume "map_of (endpoints s) u = Some p"
    then have "(u, p) \<in> set (endpoints s)" by (rule map_of_SomeD)
    then have "0 < p \<and> p < next_ptr s" using ad unfolding addressed_def by fastforce
    then show "p < next_ptr s \<and> cancel (heap s p) < next_scope s"
      using sc unfolding scoped_def by blast
  qed
  moreover have "\<forall>i \<in> cancelled s. i < next_scope s"
    using sc unfolding scoped_def by blast
  ultimately show ?thesis unfolding allocated_def by blast
qed

text \<open>
  Every state that \<^verbatim>\<open>Start\<close> and the steps of the goroutines reach has its addresses
  and scopes handed out, as the statements on the reconciliation require.
\<close>

lemma reached_allocated:
  "before_Start root s0 \<Longrightarrow> allocated (run acts (fst (Start root s0)))"
  using serving_run[OF Start_serving, of root s0 acts] serving_but_allocated
  unfolding serving_def by blast

lemma reached_serving:
  "before_Start root s0 \<Longrightarrow> serving_but {} root (run acts (fst (Start root s0)))"
  using serving_run[OF Start_serving, of root s0 acts]
  unfolding serving_def by blast

section \<open>An unchanged endpoint in a reconciliation\<close>

lemma fold_reload_step_new_frame:
  "u \<notin> set (enabled_urls es) \<Longrightarrow> map_of (fst (fold reload_step es (new, s))) u = map_of new u"
proof (induction es arbitrary: new s)
  case Nil
  show ?case by simp
next
  case (Cons e es)
  let ?ns = "reload_step e (new, s)"
  have u: "u \<notin> set (enabled_urls es)"
    using Cons.prems by (auto simp: enabled_urls_def)
  have "map_of (fst ?ns) u = map_of new u"
  proof (cases "Enabled e")
    case True
    then have "u \<noteq> URL e" using Cons.prems by (auto simp: enabled_urls_def)
    then show ?thesis using reload_step_grows[of s e new] by blast
  next
    case False
    then show ?thesis by (simp add: reload_step_disabled)
  qed
  moreover have "map_of (fst (fold reload_step es (fst ?ns, snd ?ns))) u = map_of (fst ?ns) u"
    using u by (rule Cons.IH)
  ultimately show ?case by simp
qed

text \<open>
  In a reconciliation with a configuration whose enabled URLs are distinct, an enabled
  endpoint that is equal, for \<^verbatim>\<open>endpointConfigEqual\<close>, to the snapshot of the map's
  monitor for its URL keeps that monitor: it is the entry of the new map, it is the
  same, and its scope has not been cancelled.
\<close>

lemma reconciliation_keeps_an_equal_monitor:
  assumes "distinct (enabled_urls (Endpoints (Monitor cfg)))" and "serving_but {} root s"
    and "e \<in> set (Endpoints (Monitor cfg))" and "Enabled e"
    and "map_of (endpoints s) (URL e) = Some m" and "endpointConfigEqual (endpoint (heap s m)) e"
  shows "map_of (endpoints (fst (reloadConfig (Inr cfg) s))) (URL e) = Some m"
    and "heap (fst (reloadConfig (Inr cfg) s)) m = heap s m"
    and "cancel (heap s m) \<notin> cancelled (fst (reloadConfig (Inr cfg) s))"
proof -
  let ?L = "mu_Lock (logger_Printf Reloading_configuration s)"
  from assms(3) obtain pre post where sp: "Endpoints (Monitor cfg) = pre @ e # post"
    by (auto dest: split_list)
  have d: "URL e \<notin> set (enabled_urls pre)" "URL e \<notin> set (enabled_urls post)"
    using assms(1,4) unfolding sp by (auto simp: enabled_urls_def)
  have "(URL e, m) \<in> set (endpoints s)"
    using assms(5) by (rule map_of_SomeD)
  then have m: "m < next_ptr ?L"
    using assms(2) unfolding serving_but_def addressed_def by fastforce
  let ?ra = "fold reload_step pre ([], ?L)"
  note ga = fold_reload_step_grows[of ?L pre "[]"]
  have a1: "map_of (endpoints (snd ?ra)) (URL e) = Some m"
    using ga d(1) assms(5) by simp
  have a2: "heap (snd ?ra) m = heap s m"
    using ga m by simp
  have a3: "m < next_ptr (snd ?ra)"
    using ga m by linarith
  have st: "reload_step e (fst ?ra, snd ?ra) = (AList.update (URL e) m (fst ?ra), snd ?ra)"
    using assms(4,6) a1 a2 by (intro reload_step_same) simp_all
  let ?rb = "fold reload_step post (AList.update (URL e) m (fst ?ra), snd ?ra)"
  have whole: "fold reload_step (Endpoints (Monitor cfg)) ([], ?L) = ?rb"
    unfolding sp using st by (simp del: fold_simps add: fold_append fold_Cons)
  have b1: "map_of (fst ?rb) (URL e) = Some m"
    using fold_reload_step_new_frame[OF d(2), of "AList.update (URL e) m (fst ?ra)" "snd ?ra"]
    by (simp add: update_conv')
  note gb = fold_reload_step_grows[of "snd ?ra" post "AList.update (URL e) m (fst ?ra)"]
  have b2: "heap (snd ?rb) m = heap s m"
    using gb a3 a2 by simp
  let ?t = "(remove_endpoints (endpoints (snd ?rb)) (fst ?rb) (snd ?rb))
      \<lparr> endpoints := fst ?rb, config := Monitor cfg \<rparr>"
  have e: "fst (reloadConfig (Inr cfg) s) = mu_Unlock ?t"
    by (simp add: reloadConfig_Inr split_beta whole)
  show 1: "map_of (endpoints (fst (reloadConfig (Inr cfg) s))) (URL e) = Some m"
    unfolding e using b1 by simp
  show 2: "heap (fst (reloadConfig (Inr cfg) s)) m = heap s m"
    unfolding e using b2 by (simp add: remove_endpoints_eq)
  have "serving_but {} root ?L"
    using assms(2) by (simp add: serving_but_frame[of ?L s])
  from fold_reload_step_serving[OF this, of "[]" "Endpoints (Monitor cfg)"]
  have "serving_but {} root (snd ?rb)" "distinct (map fst (fst ?rb))"
    "set (fst ?rb) \<subseteq> set (endpoints (snd ?rb))"
    unfolding whole by simp_all
  then have "serving_but {} root ?t"
    by (rule serving_after_removal)
  then have "entries_live {} ?t"
    unfolding serving_but_def by blast
  moreover have "(URL e, m) \<in> set (endpoints ?t)"
    using b1 by (simp add: map_of_SomeD)
  ultimately have "cancel (heap ?t m) \<notin> cancelled ?t"
    unfolding entries_live_def by fastforce
  then show "cancel (heap s m) \<notin> cancelled (fst (reloadConfig (Inr cfg) s))"
    unfolding e using b2 by (simp add: remove_endpoints_eq)
qed

lemma before_Start_ex: "before_Start ex_root (ex_fresh es)"
  by (simp add: before_Start_def ex_fresh_def ex_root_def context_WithCancel_def NewService_def)

lemma ex_running_AB:
  "endpoints (ex_running [ex_A, ex_B]) = [(''https://a.example'', Suc 0), (''https://b.example'', 2)]"
  "heap (ex_running [ex_A, ex_B]) (Suc 0) = \<lparr> endpoint = ex_A, cancel = Suc 0, lastCheck = 0 \<rparr>"
  "heap (ex_running [ex_A, ex_B]) 2 = \<lparr> endpoint = ex_B, cancel = 2, lastCheck = 0 \<rparr>"
  "next_ptr (ex_running [ex_A, ex_B]) = 3" "next_scope (ex_running [ex_A, ex_B]) = 3"
  "cancelled (ex_running [ex_A, ex_B]) = {}" "panicked (ex_running [ex_A, ex_B]) = False"
  "goroutines (ex_running [ex_A, ex_B]) =
     [(Go_monitorEndpoint (WithCancel (Suc 0) ex_root) (Suc 0), Running),
      (Go_monitorEndpoint (WithCancel 2 ex_root) 2, Running), (Go_watchConfig ex_root, Running)]"
  "config (ex_running [ex_A, ex_B]) = Monitor (ex_config [ex_A, ex_B])"
  by (simp_all add: ex_running_def ex_started_def ex_config_def ex_root_def
      NewService_def context_WithCancel_def Start_def mu_Lock_def mu_Unlock_def go_def wg_Add_def
      step_def goroutine_at_def set_phase_def time_NewTicker_def ex_fields eval_nat_numeral)

lemma ex_running_eq:
  "ex_running es = run [Init 0, Init 1, Init 2] (fst (Start ex_root (ex_fresh es)))"
  by (simp only: ex_running_def ex_started_eq)

lemma serving_ex_running: "serving ex_root (ex_running es)"
  unfolding ex_running_eq using Start_serving[OF before_Start_ex] by (rule serving_run)

text \<open>
  C5, as amended. Let the enabled endpoints of a configuration have pairwise distinct
  URLs. After a reconciliation with it, from any state whose addresses and scopes have
  been handed out, a second reconciliation with the same configuration takes and
  releases the lock, prints its first line, and changes nothing else: no cancel function
  is called, no goroutine is started, the map, the monitors and the stored
  configuration are the same. The same holds for the first reconciliation after
  \<^verbatim>\<open>Start\<close> with the configuration the service was started on. A pass of the first
  loop over an enabled endpoint whose URL, name, interval, timeout and tags equal the
  snapshot of the map's monitor for its URL leaves the service as it is and puts that
  monitor in the new map. And a whole reconciliation with such a configuration, in a
  state that satisfies the invariant of the running service, as every state does that is
  reached from \<^verbatim>\<open>Start\<close> by steps of the goroutines, leaves the monitor of every
  such endpoint untouched: the monitor is still the map's entry for the URL, it is the
  same, its scope has not been cancelled, and no goroutine has been touched.
\<close>

theorem reconciling_again_changes_nothing:
  assumes "distinct (enabled_urls (Endpoints (Monitor cfg)))"
  shows "(allocated s \<longrightarrow>
           (let s1 = fst (reloadConfig (Inr cfg) s)
            in reloadConfig (Inr cfg) s1 =
                 (s1 \<lparr> logger := logger s1 @ [Reloading_configuration],
                       history := history s1 @ [Lock, Unlock] \<rparr>, None)))
       \<and> (endpoints s = [] \<and> config s = Monitor cfg \<longrightarrow>
           (let s1 = fst (Start c s)
            in reloadConfig (Inr cfg) s1 =
                 (s1 \<lparr> logger := logger s1 @ [Reloading_configuration],
                       history := history s1 @ [Lock, Unlock] \<rparr>, None)))
       \<and> (\<forall>(e :: Endpoint) new (t :: Service) m. Enabled e \<and> map_of (endpoints t) (URL e) = Some m \<and>
             URL (endpoint (heap t m)) = URL e \<and> Name (endpoint (heap t m)) = Name e \<and>
             Interval (endpoint (heap t m)) = Interval e \<and>
             Timeout (endpoint (heap t m)) = Timeout e \<and> Tags (endpoint (heap t m)) = Tags e \<longrightarrow>
             snd (fst (reload_endpoints [e] new t)) = t \<and>
             map_of (fst (fst (reload_endpoints [e] new t))) (URL e) = Some m)
       \<and> (\<forall>root e m. serving_but {} root s \<and> e \<in> set (Endpoints (Monitor cfg)) \<and> Enabled e \<and>
             map_of (endpoints s) (URL e) = Some m \<and>
             URL (endpoint (heap s m)) = URL e \<and> Name (endpoint (heap s m)) = Name e \<and>
             Interval (endpoint (heap s m)) = Interval e \<and>
             Timeout (endpoint (heap s m)) = Timeout e \<and> Tags (endpoint (heap s m)) = Tags e \<longrightarrow>
             (let s1 = fst (reloadConfig (Inr cfg) s)
              in map_of (endpoints s1) (URL e) = Some m \<and> heap s1 m = heap s m \<and>
                 cancel (heap s m) \<notin> cancelled s1 \<and>
                 (\<exists>gs. goroutines s1 = goroutines s @ gs)))"
proof -
  have a: "allocated s \<longrightarrow>
           (let s1 = fst (reloadConfig (Inr cfg) s)
            in reloadConfig (Inr cfg) s1 =
                 (s1 \<lparr> logger := logger s1 @ [Reloading_configuration],
                       history := history s1 @ [Lock, Unlock] \<rparr>, None))"
  proof
    assume al: "allocated s"
    let ?s1 = "fst (reloadConfig (Inr cfg) s)"
    have c: "config ?s1 = Monitor cfg"
      by (simp add: reloadConfig_Inr split_beta)
    have "?s1 \<lparr> config := Monitor cfg \<rparr> = ?s1"
      using c by (cases ?s1) simp
    then show "let s1 = ?s1 in reloadConfig (Inr cfg) s1 =
                 (s1 \<lparr> logger := logger s1 @ [Reloading_configuration],
                       history := history s1 @ [Lock, Unlock] \<rparr>, None)"
      using reloadConfig_in_step[OF reloadConfig_establishes_in_step[OF al assms]]
      by (simp add: Let_def) (metis (no_types) Service.update_convs(2,3,13) Service.surjective)
  qed
  have b: "endpoints s = [] \<and> config s = Monitor cfg \<longrightarrow>
           (let s1 = fst (Start c s)
            in reloadConfig (Inr cfg) s1 =
                 (s1 \<lparr> logger := logger s1 @ [Reloading_configuration],
                       history := history s1 @ [Lock, Unlock] \<rparr>, None))"
  proof
    assume h: "endpoints s = [] \<and> config s = Monitor cfg"
    let ?s1 = "fst (Start c s)"
    have c: "config ?s1 = Monitor cfg"
      using h by (simp add: Start_config)
    have i: "in_step ?s1 (Endpoints (Monitor cfg))"
      using Start_establishes_in_step[of s c] h assms by simp
    have "?s1 \<lparr> config := Monitor cfg \<rparr> = ?s1"
      using c by (cases ?s1) simp
    then show "let s1 = ?s1 in reloadConfig (Inr cfg) s1 =
                 (s1 \<lparr> logger := logger s1 @ [Reloading_configuration],
                       history := history s1 @ [Lock, Unlock] \<rparr>, None)"
      using reloadConfig_in_step[OF i]
      by (simp add: Let_def) (metis (no_types) Service.update_convs(2,3,13) Service.surjective)
  qed
  have c: "\<forall>(e :: Endpoint) new (t :: Service) m. Enabled e \<and> map_of (endpoints t) (URL e) = Some m \<and>
             URL (endpoint (heap t m)) = URL e \<and> Name (endpoint (heap t m)) = Name e \<and>
             Interval (endpoint (heap t m)) = Interval e \<and>
             Timeout (endpoint (heap t m)) = Timeout e \<and> Tags (endpoint (heap t m)) = Tags e \<longrightarrow>
             snd (fst (reload_endpoints [e] new t)) = t \<and>
             map_of (fst (fst (reload_endpoints [e] new t))) (URL e) = Some m"
  proof (intro allI impI, elim conjE)
    fix e :: Endpoint and new and t :: Service and m
    assume "Enabled e" "map_of (endpoints t) (URL e) = Some m"
      "URL (endpoint (heap t m)) = URL e" "Name (endpoint (heap t m)) = Name e"
      "Interval (endpoint (heap t m)) = Interval e" "Timeout (endpoint (heap t m)) = Timeout e"
      "Tags (endpoint (heap t m)) = Tags e"
    then have "reload_step e (new, t) = (AList.update (URL e) m new, t)"
      by (intro reload_step_same) (simp_all add: endpointConfigEqual_iff)
    then show "snd (fst (reload_endpoints [e] new t)) = t \<and>
             map_of (fst (fst (reload_endpoints [e] new t))) (URL e) = Some m"
      by (simp add: reload_step_def update_conv' del: reload_endpoints.simps)
  qed
  have d: "\<forall>root e m. serving_but {} root s \<and> e \<in> set (Endpoints (Monitor cfg)) \<and> Enabled e \<and>
             map_of (endpoints s) (URL e) = Some m \<and>
             URL (endpoint (heap s m)) = URL e \<and> Name (endpoint (heap s m)) = Name e \<and>
             Interval (endpoint (heap s m)) = Interval e \<and>
             Timeout (endpoint (heap s m)) = Timeout e \<and> Tags (endpoint (heap s m)) = Tags e \<longrightarrow>
             (let s1 = fst (reloadConfig (Inr cfg) s)
              in map_of (endpoints s1) (URL e) = Some m \<and> heap s1 m = heap s m \<and>
                 cancel (heap s m) \<notin> cancelled s1 \<and>
                 (\<exists>gs. goroutines s1 = goroutines s @ gs))"
  proof (intro allI impI, elim conjE)
    fix root and e :: Endpoint and m
    assume h: "serving_but {} root s" "e \<in> set (Endpoints (Monitor cfg))" "Enabled e"
      "map_of (endpoints s) (URL e) = Some m"
      and f: "URL (endpoint (heap s m)) = URL e" "Name (endpoint (heap s m)) = Name e"
      "Interval (endpoint (heap s m)) = Interval e" "Timeout (endpoint (heap s m)) = Timeout e"
      "Tags (endpoint (heap s m)) = Tags e"
    have q: "endpointConfigEqual (endpoint (heap s m)) e"
      using f by (simp add: endpointConfigEqual_iff)
    note k = reconciliation_keeps_an_equal_monitor[OF assms h q]
    have "\<exists>gs. goroutines (fst (reloadConfig (Inr cfg) s)) = goroutines s @ gs"
      using reloadConfig_goroutines[of "Inr cfg" s] by blast
    then show "let s1 = fst (reloadConfig (Inr cfg) s)
              in map_of (endpoints s1) (URL e) = Some m \<and> heap s1 m = heap s m \<and>
                 cancel (heap s m) \<notin> cancelled s1 \<and>
                 (\<exists>gs. goroutines s1 = goroutines s @ gs)"
      using k by (simp add: Let_def)
  qed
  show ?thesis using a b c d by blast
qed

theorem reconciling_again_changes_nothing_witness:
  "history (fst (reloadConfig (Inr (ex_config [ex_A_faster, ex_B]))
       (fst (reloadConfig (Inr (ex_config [ex_A_faster, ex_B])) (ex_running [ex_A]))))) =
     history (fst (reloadConfig (Inr (ex_config [ex_A_faster, ex_B])) (ex_running [ex_A]))) @
       [Lock, Unlock]
   \<and> goroutines (fst (reloadConfig (Inr (ex_config [ex_A_faster, ex_B]))
       (fst (reloadConfig (Inr (ex_config [ex_A_faster, ex_B])) (ex_running [ex_A]))))) =
     goroutines (fst (reloadConfig (Inr (ex_config [ex_A_faster, ex_B])) (ex_running [ex_A])))
   \<and> history (fst (reloadConfig (Inr (ex_config [ex_A, ex_B])) (ex_started [ex_A, ex_B]))) =
     history (ex_started [ex_A, ex_B]) @ [Lock, Unlock]
   \<and> endpoints (fst (reloadConfig (Inr (ex_config [ex_A, ex_B])) (ex_started [ex_A, ex_B]))) =
     endpoints (ex_started [ex_A, ex_B])
   \<and> map_of (endpoints (fst (reloadConfig (Inr (ex_config [ex_A_faster, ex_B]))
       (ex_running [ex_A, ex_B])))) ''https://b.example'' = Some 2
   \<and> 2 \<notin> cancelled (fst (reloadConfig (Inr (ex_config [ex_A_faster, ex_B]))
       (ex_running [ex_A, ex_B])))"
proof -
  have d: "distinct (enabled_urls (Endpoints (Monitor (ex_config [ex_A_faster, ex_B]))))"
    "distinct (enabled_urls (Endpoints (Monitor (ex_config [ex_A, ex_B]))))"
    by (simp_all add: enabled_urls_def ex_config_def ex_fields)
  have f: "endpoints (ex_fresh [ex_A, ex_B]) = [] \<and>
      config (ex_fresh [ex_A, ex_B]) = Monitor (ex_config [ex_A, ex_B])"
    by (simp add: ex_fresh_def context_WithCancel_def NewService_def)
  from reconciling_again_changes_nothing [OF d(1), where s = "ex_running [ex_A]"] allocated_ex_running_A
  have a: "reloadConfig (Inr (ex_config [ex_A_faster, ex_B]))
       (fst (reloadConfig (Inr (ex_config [ex_A_faster, ex_B])) (ex_running [ex_A]))) =
     ((fst (reloadConfig (Inr (ex_config [ex_A_faster, ex_B])) (ex_running [ex_A])))
        \<lparr> logger := logger (fst (reloadConfig (Inr (ex_config [ex_A_faster, ex_B])) (ex_running [ex_A])))
             @ [Reloading_configuration],
          history := history (fst (reloadConfig (Inr (ex_config [ex_A_faster, ex_B])) (ex_running [ex_A])))
             @ [Lock, Unlock] \<rparr>, None)"
    by (simp add: Let_def)
  from reconciling_again_changes_nothing [OF d(2), where s = "ex_fresh [ex_A, ex_B]" and c = ex_root] f
  have b: "reloadConfig (Inr (ex_config [ex_A, ex_B])) (ex_started [ex_A, ex_B]) =
     ((ex_started [ex_A, ex_B])
        \<lparr> logger := logger (ex_started [ex_A, ex_B]) @ [Reloading_configuration],
          history := history (ex_started [ex_A, ex_B]) @ [Lock, Unlock] \<rparr>, None)"
    by (simp add: Let_def ex_started_eq)
  have sv: "serving_but {} ex_root (ex_running [ex_A, ex_B])"
    using serving_ex_running[of "[ex_A, ex_B]"] unfolding serving_def by blast
  have h: "ex_B \<in> set (Endpoints (Monitor (ex_config [ex_A_faster, ex_B])))" "Enabled ex_B"
    "map_of (endpoints (ex_running [ex_A, ex_B])) (URL ex_B) = Some 2"
    "heap (ex_running [ex_A, ex_B]) 2 = \<lparr> endpoint = ex_B, cancel = 2, lastCheck = 0 \<rparr>"
    by (simp_all add: ex_config_def ex_fields ex_running_AB)
  note t = reconciling_again_changes_nothing [OF d(1), where s = "ex_running [ex_A, ex_B]",
      THEN conjunct2, THEN conjunct2, THEN conjunct2, rule_format, of ex_root ex_B 2,
      unfolded Let_def]
  have "map_of (endpoints (fst (reloadConfig (Inr (ex_config [ex_A_faster, ex_B]))
          (ex_running [ex_A, ex_B])))) (URL ex_B) = Some 2
      \<and> cancel (heap (ex_running [ex_A, ex_B]) 2) \<notin>
          cancelled (fst (reloadConfig (Inr (ex_config [ex_A_faster, ex_B])) (ex_running [ex_A, ex_B])))"
    using t sv h(1,2,3) by (simp add: h(4))
  then have c: "map_of (endpoints (fst (reloadConfig (Inr (ex_config [ex_A_faster, ex_B]))
          (ex_running [ex_A, ex_B])))) ''https://b.example'' = Some 2"
      "2 \<notin> cancelled (fst (reloadConfig (Inr (ex_config [ex_A_faster, ex_B])) (ex_running [ex_A, ex_B])))"
    by (simp_all add: h(4) ex_fields)
  show ?thesis using c by (simp add: a b)
qed

text \<open>
  C5 as stated fails when two enabled endpoints share a URL. Started on \<open>A\<close> and its
  twin, the service holds one map entry, for the twin. A reconciliation with the very
  configuration it is running finds \<open>A\<close> different from the twin's snapshot and restarts
  it, then finds the twin different from the snapshot of \<open>A\<close> and restarts again: two
  cancellations and two new polling loops, on every reconciliation.
\<close>

theorem twin_urls_restart_on_every_reconciliation_counterexample:
  "config (ex_started [ex_A, ex_A_twin]) = Monitor (ex_config [ex_A, ex_A_twin])
   \<and> history (fst (reloadConfig (Inr (ex_config [ex_A, ex_A_twin])) (ex_started [ex_A, ex_A_twin]))) =
       history (ex_started [ex_A, ex_A_twin]) @
       [Lock, Cancel 2, Go (Go_monitorEndpoint (WithCancel 3 Background) 3),
        Cancel 3, Go (Go_monitorEndpoint (WithCancel 4 Background) 4), Unlock]
   \<and> endpoints (fst (reloadConfig (Inr (ex_config [ex_A, ex_A_twin])) (ex_started [ex_A, ex_A_twin]))) =
       [(''https://a.example'', 4)]"
  by (simp add: ex_started_twins reloadConfig_def ex_config_def ex_fields ex_twin_fields
      map_index_def map_assign_def endpointConfigEqual_iff remove_endpoints_eq removed_def)


section \<open>No live loop outside the map\<close>














section \<open>Every map entry and its polling loop\<close>




lemma Shutdown_begin_fields:
  "endpoints (Shutdown_begin s) = endpoints s" "config (Shutdown_begin s) = config s"
  "heap (Shutdown_begin s) = heap s"
  "goroutines (Shutdown_begin s) = goroutines s @ [(Go_Wait, Created)]"
  "cancelled (Shutdown_begin s) = cancelled s \<union> scope_of s ` set (endpoints s)"
  "panicked (Shutdown_begin s) = panicked s"
  by (simp_all add: Shutdown_begin_def cancel_endpoints_eq go_def scope_of_heap[of "mu_Lock s" s])



text \<open>
  \<^verbatim>\<open>Shutdown\<close> never cancels a scope of the root context: in every state of the
  running service the context of the watcher is not done after it.
\<close>

lemma Shutdown_leaves_the_root:
  assumes "serving_but U root s"
  shows "\<not> ctx_Done (cancelled (Shutdown_begin s)) root"
proof -
  from assms have ad: "addressed s" and sc: "scoped root s"
    unfolding serving_but_def by blast+
  have "cancelled s \<inter> scopes root = {}"
    using sc unfolding scoped_def by blast
  moreover have "scope_of s ` set (endpoints s) \<inter> scopes root = {}"
  proof -
    have "scope_of s x \<notin> scopes root" if "x \<in> set (endpoints s)" for x
    proof -
      have "0 < snd x \<and> snd x < next_ptr s" using ad that unfolding addressed_def by blast
      then show ?thesis using sc unfolding scoped_def by (simp add: scope_of_def split_beta)
    qed
    then show ?thesis by blast
  qed
  ultimately show ?thesis
    by (simp add: Shutdown_begin_fields ctx_Done_iff Int_Un_distrib2)
qed




text \<open>
  The watcher is still running after \<^verbatim>\<open>Shutdown\<close>, and a later reconciliation starts
  polling loops again for the endpoints that are new or changed, and for those alone. In
  the state that \<^verbatim>\<open>Shutdown\<close> left on \<open>A\<close> and \<open>B\<close>, a reconciliation that
  changes the interval of \<open>A\<close> gives \<open>A\<close> a new monitor with a live loop and keeps
  the cancelled monitor of \<open>B\<close> in the map.
\<close>

lemma reconciliation_after_Shutdown:
  "endpoints (step (Watch_tick 2 (Inr (ex_config [ex_A_faster, ex_B])))
       (Shutdown_begin (ex_running [ex_A, ex_B]))) =
     [(''https://a.example'', 3), (''https://b.example'', 2)]"
  "cancelled (step (Watch_tick 2 (Inr (ex_config [ex_A_faster, ex_B])))
       (Shutdown_begin (ex_running [ex_A, ex_B]))) = {1, 2}"
  "filter (live (step (Watch_tick 2 (Inr (ex_config [ex_A_faster, ex_B])))
       (Shutdown_begin (ex_running [ex_A, ex_B]))))
     (loops_of (step (Watch_tick 2 (Inr (ex_config [ex_A_faster, ex_B])))
       (Shutdown_begin (ex_running [ex_A, ex_B]))) ''https://a.example'') =
     [(Go_monitorEndpoint (WithCancel 3 Background) 3, Created)]"
  "filter (live (step (Watch_tick 2 (Inr (ex_config [ex_A_faster, ex_B])))
       (Shutdown_begin (ex_running [ex_A, ex_B]))))
     (loops_of (step (Watch_tick 2 (Inr (ex_config [ex_A_faster, ex_B])))
       (Shutdown_begin (ex_running [ex_A, ex_B]))) ''https://b.example'') = []"
  by (simp_all add: ex_simps run_simps ex_A_faster_def reloadConfig_def endpointConfigEqual_def
      sliceEqual_def remove_endpoints_eq cancel_endpoints_eq removed_def scope_of_def live_def
      loops_of_def eval_nat_numeral insert_commute)

text \<open>
  Two enabled endpoints on one URL in the configuration that the service is started on.
  \<^verbatim>\<open>Start\<close> allocates a monitor and starts a polling loop for each, and the second
  registration overwrites the first without cancelling it, which the reconciliation
  does before it registers a monitor for a URL that has one. The map holds the one entry
  for monitor 2, and two live loops poll its URL. The loop of monitor 1 has no entry in
  the map: \<^verbatim>\<open>Shutdown\<close> does not reach it and it runs until the root context is
  cancelled.
\<close>

lemma ex_started_twin_loops:
  "endpoints (ex_started [ex_A, ex_A_twin]) = [(''https://a.example'', 2)]"
  "filter (live (ex_started [ex_A, ex_A_twin]))
     (loops_of (ex_started [ex_A, ex_A_twin]) ''https://a.example'') =
     [(Go_monitorEndpoint (WithCancel 1 ex_root) 1, Created),
      (Go_monitorEndpoint (WithCancel 2 ex_root) 2, Created)]"
  "\<not> one_live_loop_each (ex_started [ex_A, ex_A_twin])"
  "cancelled (Shutdown_begin (ex_started [ex_A, ex_A_twin])) = {2}"
  "filter (live (Shutdown_begin (ex_started [ex_A, ex_A_twin])))
     (loops_of (Shutdown_begin (ex_started [ex_A, ex_A_twin])) ''https://a.example'') =
     [(Go_monitorEndpoint (WithCancel 1 ex_root) 1, Created)]"
  by (simp_all add: ex_started_def ex_config_def ex_root_def NewService_def context_WithCancel_def
      Start_def mu_Lock_def mu_Unlock_def go_def wg_Add_def ex_fields ex_twin_fields live_def
      Shutdown_begin_fields scope_of_def one_live_loop_each_def loops_of_def eval_nat_numeral)

end
